theory Spec2Isabelle
  imports Complex_Main
begin

section \<open>The values carousel (js/main.js, module ValuesCarousel)\<close>

text \<open>
  The carousel moves six cards around a fixed ring of slots while the pointer hovers over
  the grid. JavaScript numbers are modelled as real numbers: the arithmetic of the source
  (\<open>+\<close>, \<open>-\<close>, \<open>*\<close>, \<open>/\<close>, \<open>%\<close>, \<open>Math.floor\<close>) is taken exactly, without the rounding of
  IEEE doubles and without \<open>NaN\<close> or infinities.
\<close>

subsection \<open>Data\<close>

text \<open>A base position \<open>{x, y}\<close>.\<close>

record point =
  pos_x :: real
  pos_y :: real

text \<open>
  The value of \<open>card.style.transform\<close>: the empty string, or the string
  \<open>translate(dx px, dy px)\<close> that \<open>applyPositions\<close> writes.
\<close>

datatype transform = NoTransform | Translate real real

text \<open>The only exception the module can raise: reading a property of \<open>undefined\<close> or \<open>null\<close>.\<close>

datatype error = TypeError

text \<open>\<open>CONFIG\<close>.\<close>

definition speed :: real where
  "speed = 45 / 100"

definition minWidth :: real where
  "minWidth = 768"

definition ringOrder :: "nat list" where
  "ringOrder = [0, 1, 3, 5, 4, 2]"

subsection \<open>JavaScript primitives\<close>

text \<open>\<open>Math.trunc\<close>, used by the remainder: rounding towards zero.\<close>

definition js_trunc :: "real \<Rightarrow> int" where
  "js_trunc r = (if 0 \<le> r then \<lfloor>r\<rfloor> else \<lceil>r\<rceil>)"

text \<open>
  \<open>a % b\<close>: the remainder of the truncated division, with the sign of \<open>a\<close>. The module uses
  it with \<open>b = ring.length\<close> only, which is 6 (\<open>b = 0\<close> would give \<open>NaN\<close> in JavaScript).
\<close>

definition js_rem :: "real \<Rightarrow> real \<Rightarrow> real" where
  "js_rem a b = a - b * of_int (js_trunc (a / b))"

text \<open>\<open>xs.indexOf(v)\<close>: the first index of \<open>v\<close>, or \<open>-1\<close>.\<close>

fun indexOf :: "nat list \<Rightarrow> nat \<Rightarrow> int" where
  "indexOf [] v = - 1"
| "indexOf (u # us) v =
     (if u = v then 0 else (let r = indexOf us v in if r = - 1 then - 1 else r + 1))"

text \<open>
  \<open>xs[k]\<close> for a number \<open>k\<close>: the element when \<open>k\<close> is an integer within the array,
  \<open>undefined\<close> (here \<open>None\<close>) otherwise.
\<close>

definition item :: "'a list \<Rightarrow> real \<Rightarrow> 'a option" where
  "item xs k =
     (if 0 \<le> k \<and> k < real (length xs) \<and> of_int \<lfloor>k\<rfloor> = k then Some (xs ! nat \<lfloor>k\<rfloor>) else None)"

text \<open>\<open>xs[k]\<close> where \<open>k\<close> is itself the result of an array read, so possibly \<open>undefined\<close>.\<close>

definition item_opt :: "'a list \<Rightarrow> nat option \<Rightarrow> 'a option" where
  "item_opt xs k = (case k of None \<Rightarrow> None | Some n \<Rightarrow> item xs (real n))"

subsection \<open>Helpers\<close>

definition lerp :: "real \<Rightarrow> real \<Rightarrow> real \<Rightarrow> real" where
  "lerp a b t = a + (b - a) * t"

subsection \<open>The per-card computation of \<open>applyPositions\<close>\<close>

text \<open>The local constants of the callback, named as in the source.\<close>

definition effective :: "int \<Rightarrow> real \<Rightarrow> real" where
  "effective ringPos p = js_rem (of_int ringPos + p) (real (length ringOrder))"

definition posA :: "real \<Rightarrow> real" where
  "posA e = js_rem (of_int \<lfloor>e\<rfloor>) (real (length ringOrder))"

definition posB :: "real \<Rightarrow> real" where
  "posB a = js_rem (a + 1) (real (length ringOrder))"

definition weight :: "real \<Rightarrow> real" where
  "weight e = e - of_int \<lfloor>e\<rfloor>"

text \<open>
  The body of the \<open>forEach\<close> callback for the card at \<open>cardIndex\<close>: \<open>Inr None\<close> is the early
  return (the card is not on the ring), \<open>Inr (Some tr)\<close> the transform written to the card,
  \<open>Inl TypeError\<close> the exception of \<open>basePositions[slot].x\<close> on a missing entry.
\<close>

definition cardTransform :: "point list \<Rightarrow> real \<Rightarrow> nat \<Rightarrow> error + transform option" where
  "cardTransform bps p cardIndex =
     (let ringPos = indexOf ringOrder cardIndex in
      if ringPos = - 1 then Inr None
      else
        let e = effective ringPos p;
            a = posA e;
            b = posB a;
            t = weight e;
            slotA = item ringOrder a;
            slotB = item ringOrder b
        in case item_opt bps slotA of
             None \<Rightarrow> Inl TypeError
           | Some baseA \<Rightarrow>
             (case item_opt bps slotB of
                None \<Rightarrow> Inl TypeError
              | Some baseB \<Rightarrow>
                (case item bps (real cardIndex) of
                   None \<Rightarrow> Inl TypeError
                 | Some own \<Rightarrow>
                     Inr (Some (Translate
                       (lerp (pos_x baseA) (pos_x baseB) t - pos_x own)
                       (lerp (pos_y baseA) (pos_y baseB) t - pos_y own))))))"

text \<open>
  \<open>cards.forEach((card, cardIndex) => ...)\<close> from index \<open>i\<close> on: the transforms after the
  loop, and the exception that stopped it, if any. Cards before the failing one keep their
  new transform, the failing one and those after it keep their old one.
\<close>

fun applyFrom :: "point list \<Rightarrow> real \<Rightarrow> nat \<Rightarrow> transform list \<Rightarrow> transform list \<times> error option" where
  "applyFrom bps p i [] = ([], None)"
| "applyFrom bps p i (c # cs) =
     (case cardTransform bps p i of
        Inl e \<Rightarrow> (c # cs, Some e)
      | Inr None \<Rightarrow> (let (cs', r) = applyFrom bps p (Suc i) cs in (c # cs', r))
      | Inr (Some tr) \<Rightarrow> (let (cs', r) = applyFrom bps p (Suc i) cs in (tr # cs', r)))"

subsection \<open>Module state and the browser around it\<close>

text \<open>
  The module variables \<open>grid\<close> (here: whether it is non-null), \<open>cards\<close> (each element
  stands for its \<open>style.transform\<close>, the only property the module writes),
  \<open>basePositions\<close>, \<open>progress\<close>, \<open>animationId\<close>, \<open>lastTimestamp\<close>, \<open>positionsCaptured\<close>,
  together with what the browser holds for the module: whether the three listeners are
  registered, whether the timeout of \<open>handleResize\<close> is armed, the animation frame
  callbacks that are scheduled (all of them are \<open>animate\<close>), and the next handle
  \<open>requestAnimationFrame\<close> will return.
\<close>

record state =
  grid :: bool
  cards :: "transform list"
  basePositions :: "point list"
  progress :: real
  animationId :: "nat option"
  lastTimestamp :: "real option"
  positionsCaptured :: bool
  listeners :: bool
  resizeTimer :: bool
  rafQueue :: "nat list"
  rafNext :: nat

text \<open>
  What a handler reads from the browser when it runs: \<open>window.innerWidth\<close>, the
  \<open>prefers-reduced-motion\<close> media query, the left/top corner of the grid's bounding
  rectangle and the left/top corner each card has in the layout when it carries no
  transform.
\<close>

record env =
  innerWidth :: real
  reducedMotion :: bool
  gridRect :: point
  cardRect :: "nat \<Rightarrow> point"

text \<open>What \<open>init\<close> finds in the document: the grid, and the transforms of its cards.\<close>

record document =
  gridPresent :: bool
  valueCards :: "transform list"

definition initial :: state where
  "initial = \<lparr>grid = False, cards = [], basePositions = [], progress = 0,
     animationId = None, lastTimestamp = None, positionsCaptured = False,
     listeners = False, resizeTimer = False, rafQueue = [], rafNext = 1\<rparr>"

definition prefersReducedMotion :: "env \<Rightarrow> bool" where
  "prefersReducedMotion e = reducedMotion e"

text \<open>
  \<open>c.getBoundingClientRect()\<close> of card \<open>i\<close>: its place in the layout, moved by the
  translation it carries.
\<close>

fun boundingClientRect :: "env \<Rightarrow> nat \<Rightarrow> transform \<Rightarrow> point" where
  "boundingClientRect e i NoTransform = cardRect e i"
| "boundingClientRect e i (Translate dx dy) =
     \<lparr>pos_x = pos_x (cardRect e i) + dx, pos_y = pos_y (cardRect e i) + dy\<rparr>"

definition requestAnimationFrame :: "state \<Rightarrow> nat \<times> state" where
  "requestAnimationFrame s =
     (rafNext s, s\<lparr>rafQueue := rafQueue s @ [rafNext s], rafNext := Suc (rafNext s)\<rparr>)"

definition cancelAnimationFrame :: "nat \<Rightarrow> state \<Rightarrow> state" where
  "cancelAnimationFrame k s = s\<lparr>rafQueue := removeAll k (rafQueue s)\<rparr>"

subsection \<open>Position capture\<close>

text \<open>
  Handlers return the state they leave behind and the exception that ended them, if any:
  an exception in a browser callback does not undo the writes made before it.
\<close>

definition captureBasePositions :: "env \<Rightarrow> state \<Rightarrow> state \<times> error option" where
  "captureBasePositions e s =
     (let savedTransforms = cards s;
          s1 = s\<lparr>cards := map (\<lambda>c. NoTransform) (cards s)\<rparr>
      in if \<not> grid s1 then (s1, Some TypeError)
         else
           let s2 = s1\<lparr>basePositions :=
                  map (\<lambda>i. let r = boundingClientRect e i (cards s1 ! i) in
                         \<lparr>pos_x = pos_x r - pos_x (gridRect e),
                          pos_y = pos_y r - pos_y (gridRect e)\<rparr>)
                      [0..<length (cards s1)]\<rparr>;
               s3 = s2\<lparr>cards := map (\<lambda>i. savedTransforms ! i) [0..<length (cards s2)]\<rparr>
           in (s3\<lparr>positionsCaptured := True\<rparr>, None))"

subsection \<open>Animation loop\<close>

definition applyPositions :: "state \<Rightarrow> state \<times> error option" where
  "applyPositions s =
     (let (cs, r) = applyFrom (basePositions s) (progress s) 0 (cards s)
      in (s\<lparr>cards := cs\<rparr>, r))"

definition animate :: "real \<Rightarrow> state \<Rightarrow> state \<times> error option" where
  "animate timestamp s =
     (let previous = (case lastTimestamp s of None \<Rightarrow> timestamp | Some l \<Rightarrow> l);
          delta = (timestamp - previous) / 1000;
          s1 = s\<lparr>lastTimestamp := Some timestamp, progress := progress s + speed * delta\<rparr>;
          (s2, r) = applyPositions s1
      in case r of
           Some err \<Rightarrow> (s2, Some err)
         | None \<Rightarrow> (let (k, s3) = requestAnimationFrame s2 in (s3\<lparr>animationId := Some k\<rparr>, None)))"

subsection \<open>Event handlers\<close>

definition handleMouseEnter :: "env \<Rightarrow> state \<Rightarrow> state \<times> error option" where
  "handleMouseEnter e s =
     (if innerWidth e < minWidth then (s, None)
      else if prefersReducedMotion e then (s, None)
      else
        let (s1, r) = (if \<not> positionsCaptured s then captureBasePositions e s else (s, None))
        in case r of
             Some err \<Rightarrow> (s1, Some err)
           | None \<Rightarrow>
               (let (k, s2) = requestAnimationFrame (s1\<lparr>lastTimestamp := None\<rparr>)
                in (s2\<lparr>animationId := Some k\<rparr>, None)))"

definition handleMouseLeave :: "state \<Rightarrow> state" where
  "handleMouseLeave s =
     (case animationId s of
        Some k \<Rightarrow> (cancelAnimationFrame k s)\<lparr>animationId := None\<rparr>
      | None \<Rightarrow> s)"

text \<open>\<open>handleResize\<close> only re-arms its timeout: \<open>clearTimeout\<close>, then \<open>setTimeout\<close>.\<close>

definition handleResize :: "state \<Rightarrow> state" where
  "handleResize s = s\<lparr>resizeTimer := True\<rparr>"

text \<open>The function \<open>handleResize\<close> passes to \<open>setTimeout\<close>: the debounced work.\<close>

definition resizeTimeout :: "env \<Rightarrow> state \<Rightarrow> state \<times> error option" where
  "resizeTimeout e s =
     (if \<not> positionsCaptured s then (s, None)
      else
        let wasAnimating = (animationId s \<noteq> None);
            s1 = (case animationId s of
                    Some k \<Rightarrow> (cancelAnimationFrame k s)\<lparr>animationId := None\<rparr>
                  | None \<Rightarrow> s)
        in if innerWidth e < minWidth
           then (s1\<lparr>cards := map (\<lambda>c. NoTransform) (cards s1),
                    positionsCaptured := False, progress := 0\<rparr>, None)
           else
             let (s2, r) = captureBasePositions e s1
             in case r of
                  Some err \<Rightarrow> (s2, Some err)
                | None \<Rightarrow>
                    (let (s3, r') = applyPositions s2
                     in case r' of
                          Some err \<Rightarrow> (s3, Some err)
                        | None \<Rightarrow>
                            if wasAnimating
                            then (let (k, s4) = requestAnimationFrame (s3\<lparr>lastTimestamp := None\<rparr>)
                                  in (s4\<lparr>animationId := Some k\<rparr>, None))
                            else (s3, None)))"

subsection \<open>Init\<close>

definition init :: "document \<Rightarrow> env \<Rightarrow> state \<Rightarrow> state \<times> error option" where
  "init doc e s =
     (let s1 = s\<lparr>grid := gridPresent doc\<rparr>
      in if \<not> grid s1 then (s1, None)
         else
           let s2 = s1\<lparr>cards := valueCards doc\<rparr>
           in if length (cards s2) \<noteq> 6 then (s2, None)
              else if prefersReducedMotion e then (s2, None)
              else (s2\<lparr>listeners := True\<rparr>, None))"

subsection \<open>Events\<close>

text \<open>
  What the browser can do to the module after \<open>init\<close>: dispatch \<open>mouseenter\<close>,
  \<open>mouseleave\<close> or \<open>resize\<close> to a registered listener, let the armed timeout expire, or
  render a frame, which runs every callback scheduled before the frame with the frame's
  timestamp. An exception in a callback is reported and the page goes on from the state
  the callback left.
\<close>

datatype event = MouseEnter env | MouseLeave | Resize | Timeout env | Frame real

fun step :: "event \<Rightarrow> state \<Rightarrow> state" where
  "step (MouseEnter e) s = (if listeners s then fst (handleMouseEnter e s) else s)"
| "step MouseLeave s = (if listeners s then handleMouseLeave s else s)"
| "step Resize s = (if listeners s then handleResize s else s)"
| "step (Timeout e) s =
     (if resizeTimer s then fst (resizeTimeout e (s\<lparr>resizeTimer := False\<rparr>)) else s)"
| "step (Frame timestamp) s =
     foldl (\<lambda>s' k. fst (animate timestamp s')) (s\<lparr>rafQueue := []\<rparr>) (rafQueue s)"

fun run :: "event list \<Rightarrow> state \<Rightarrow> state" where
  "run [] s = s"
| "run (ev # evs) s = run evs (step ev s)"

section \<open>Notions used to state the properties\<close>

text \<open>
  The base positions \<open>captureBasePositions\<close> measures for \<open>n\<close> cards: the corner of each
  card in the layout, relative to the corner of the grid.
\<close>

definition measured :: "env \<Rightarrow> nat \<Rightarrow> point list" where
  "measured e n = map (\<lambda>i. \<lparr>pos_x = pos_x (cardRect e i) - pos_x (gridRect e),
                     pos_y = pos_y (cardRect e i) - pos_y (gridRect e)\<rparr>) [0..<n]"

text \<open>
  The transform of the card at \<open>cardIndex\<close> when it is at weight \<open>t\<close> on the ring segment from
  position \<open>k\<close> to its cyclic successor: the interpolated target minus the card's own base
  position.
\<close>

definition segment :: "point list \<Rightarrow> nat \<Rightarrow> nat \<Rightarrow> real \<Rightarrow> transform" where
  "segment bps cardIndex k t =
     Translate
       (lerp (pos_x (bps ! (ringOrder ! k))) (pos_x (bps ! (ringOrder ! (Suc k mod length ringOrder)))) t
          - pos_x (bps ! cardIndex))
       (lerp (pos_y (bps ! (ringOrder ! k))) (pos_y (bps ! (ringOrder ! (Suc k mod length ringOrder)))) t
          - pos_y (bps ! cardIndex))"

text \<open>
  The offset a transform renders, and the offset the per-frame update gives the card at
  index \<open>i\<close> as a function of \<open>progress\<close> (where the update writes no transform, the value
  is of no interest and taken as zero).
\<close>

fun translation :: "transform \<Rightarrow> real \<times> real" where
  "translation NoTransform = (0, 0)"
| "translation (Translate dx dy) = (dx, dy)"

definition rendered :: "point list \<Rightarrow> real \<Rightarrow> nat \<Rightarrow> real \<times> real" where
  "rendered bps p i = (case cardTransform bps p i of Inr (Some tr) \<Rightarrow> translation tr | _ \<Rightarrow> (0, 0))"

text \<open>
  Events that are not a start of the animation: everything but a \<open>mouseenter\<close> on a wide
  viewport without reduced motion and the expiry of the resize timeout.
\<close>

fun quiet :: "event \<Rightarrow> bool" where
  "quiet (MouseEnter e) = (innerWidth e < minWidth \<or> reducedMotion e)"
| "quiet MouseLeave = True"
| "quiet Resize = True"
| "quiet (Timeout e) = False"
| "quiet (Frame timestamp) = True"

text \<open>At most one frame callback is scheduled, and it is the one \<open>animationId\<close> holds.\<close>

definition single :: "state \<Rightarrow> bool" where
  "single s = (case rafQueue s of [] \<Rightarrow> True | [k] \<Rightarrow> animationId s = Some k | _ \<Rightarrow> False)"

text \<open>
  Frame timestamps never run backwards, starting from the time \<open>now\<close>: the browser passes
  the time of the frame to every callback.
\<close>

fun ordered :: "real \<Rightarrow> event list \<Rightarrow> bool" where
  "ordered now [] = True"
| "ordered now (Frame timestamp # evs) = (now \<le> timestamp \<and> ordered timestamp evs)"
| "ordered now (ev # evs) = ordered now evs"

text \<open>
  What holds of the module after a successful \<open>init\<close>, at any later time \<open>now\<close>: the grid and
  the six cards are bound, there are six base positions once they were captured,
  \<open>progress\<close> is not negative and the last frame is not in the future.
\<close>

definition sound :: "real \<Rightarrow> state \<Rightarrow> bool" where
  "sound now s =
     (grid s \<and> length (cards s) = 6
      \<and> (positionsCaptured s \<or> rafQueue s \<noteq> [] \<longrightarrow> length (basePositions s) = 6)
      \<and> 0 \<le> progress s
      \<and> (case lastTimestamp s of None \<Rightarrow> True | Some l \<Rightarrow> l \<le> now))"

subsection \<open>A page to run the module on\<close>

text \<open>
  A desktop viewport laying the six cards out in two columns, the same page on a phone,
  the document with the grid and six untouched cards, the module after \<open>init\<close> on it, and
  the module while the pointer hovers over the grid.
\<close>

definition desktop :: env where
  "desktop = \<lparr>innerWidth = 1024, reducedMotion = False, gridRect = \<lparr>pos_x = 8, pos_y = 8\<rparr>,
     cardRect = (\<lambda>i. \<lparr>pos_x = 8 + 200 * real (i mod 2), pos_y = 8 + 100 * real (i div 2)\<rparr>)\<rparr>"

definition phone :: env where
  "phone = desktop\<lparr>innerWidth := 390\<rparr>"

definition page :: document where
  "page = \<lparr>gridPresent = True, valueCards = replicate 6 NoTransform\<rparr>"

definition ready :: state where
  "ready = fst (init page desktop initial)"

definition hovering :: state where
  "hovering = fst (handleMouseEnter desktop ready)"

text \<open>The module after two \<open>mouseenter\<close> in a row and a \<open>mouseleave\<close>.\<close>

definition frozen :: state where
  "frozen = run [MouseEnter desktop, MouseEnter desktop, MouseLeave] ready"

section \<open>Properties\<close>

subsection \<open>The remainder on non-negative numbers\<close>

lemma js_rem_range:
  assumes "0 \<le> a" "0 < b"
  shows "0 \<le> js_rem a b" "js_rem a b < b"
proof -
  have q: "0 \<le> a / b" using assms by simp
  have "of_int \<lfloor>a / b\<rfloor> \<le> a / b" by simp
  then have "of_int \<lfloor>a / b\<rfloor> * b \<le> a" using assms(2) by (simp only: pos_le_divide_eq)
  then have "b * of_int \<lfloor>a / b\<rfloor> \<le> a" by (simp add: mult.commute)
  then show "0 \<le> js_rem a b" using q by (simp add: js_rem_def js_trunc_def)
  have "a / b < of_int \<lfloor>a / b\<rfloor> + 1" by linarith
  then have "a < (of_int \<lfloor>a / b\<rfloor> + 1) * b" using assms(2) by (simp only: pos_divide_less_eq)
  then have "a < b * (of_int \<lfloor>a / b\<rfloor> + 1)" by (simp add: mult.commute)
  then show "js_rem a b < b" using q by (simp add: js_rem_def js_trunc_def algebra_simps)
qed

lemma js_rem_small: 
  assumes "0 \<le> a" "a < b"
  shows "js_rem a b = a"
proof -
  have "0 \<le> a / b" "a / b < 1" using assms by simp_all
  then have "\<lfloor>a / b\<rfloor> = 0" by linarith
  then show ?thesis using \<open>0 \<le> a / b\<close> by (simp add: js_rem_def js_trunc_def)
qed

lemma js_rem_self: "0 < b \<Longrightarrow> js_rem b b = 0"
  by (simp add: js_rem_def js_trunc_def)

lemma len6: "length ringOrder = 6" by (simp add: ringOrder_def)

lemma effective_range:
  assumes "0 \<le> p" "0 \<le> ringPos"
  shows "0 \<le> effective ringPos p" "effective ringPos p < 6"
  using js_rem_range[of "of_int ringPos + p" 6] assms by (simp_all add: effective_def len6)

lemma posA_floor:
  assumes "0 \<le> e" "e < 6"
  shows "posA e = of_int \<lfloor>e\<rfloor>"
proof -
  have "0 \<le> \<lfloor>e\<rfloor>" "\<lfloor>e\<rfloor> < 6" using assms by (simp_all add: floor_less_iff)
  then have "(0::real) \<le> of_int \<lfloor>e\<rfloor>" "of_int \<lfloor>e\<rfloor> < (6::real)" by simp_all
  then show ?thesis unfolding posA_def len6 by (simp add: js_rem_small)
qed

lemma posB_succ:
  assumes "k < 6"
  shows "posB (real k) = real (Suc k mod 6)"
proof (cases "Suc k < 6")
  case True
  then have "real k + 1 < 6" by linarith
  then have "js_rem (real k + 1) 6 = real k + 1" by (intro js_rem_small) simp_all
  then show ?thesis using True by (simp add: posB_def len6)
next
  case False
  then have "k = 5" using assms by simp
  then show ?thesis by (simp add: posB_def len6 js_rem_self)
qed

lemma weight_range: "0 \<le> weight e" "weight e < 1"
  unfolding weight_def by linarith+

subsection \<open>The ring and the per-card computation\<close>

lemma indexOf_ring:
  assumes "i < 6"
  shows "0 \<le> indexOf ringOrder i" "indexOf ringOrder i < 6" "ringOrder ! nat (indexOf ringOrder i) = i"
proof -
  from assms have "i = 0 \<or> i = 1 \<or> i = 2 \<or> i = 3 \<or> i = 4 \<or> i = 5" by linarith
  then show "0 \<le> indexOf ringOrder i" "indexOf ringOrder i < 6" "ringOrder ! nat (indexOf ringOrder i) = i"
    by (auto simp: ringOrder_def)
qed

lemma ring_nth_less: "k < 6 \<Longrightarrow> ringOrder ! k < 6"
proof -
  assume "k < 6"
  then have "k = 0 \<or> k = 1 \<or> k = 2 \<or> k = 3 \<or> k = 4 \<or> k = 5" by linarith
  then show ?thesis by (auto simp: ringOrder_def)
qed

lemma item_nat: "k < length xs \<Longrightarrow> item xs (real k) = Some (xs ! k)"
  by (simp add: item_def)

lemma cardTransform_eq:
  assumes "length bps = 6" "i < 6" "0 \<le> p"
  defines "e \<equiv> effective (indexOf ringOrder i) p"
  shows "cardTransform bps p i = Inr (Some (Translate
           (lerp (pos_x (bps ! (ringOrder ! nat \<lfloor>e\<rfloor>))) (pos_x (bps ! (ringOrder ! (Suc (nat \<lfloor>e\<rfloor>) mod 6)))) (weight e)
              - pos_x (bps ! i))
           (lerp (pos_y (bps ! (ringOrder ! nat \<lfloor>e\<rfloor>))) (pos_y (bps ! (ringOrder ! (Suc (nat \<lfloor>e\<rfloor>) mod 6)))) (weight e)
              - pos_y (bps ! i))))"
proof -
  have e: "0 \<le> e" "e < 6"
    using effective_range[OF assms(3) indexOf_ring(1)[OF assms(2)]] by (simp_all add: e_def)
  then have f: "0 \<le> \<lfloor>e\<rfloor>" "\<lfloor>e\<rfloor> < 6" by (simp_all add: floor_less_iff)
  define k where "k = nat \<lfloor>e\<rfloor>"
  have k: "k < 6" "real k = of_int \<lfloor>e\<rfloor>"
  proof -
    show "k < 6" unfolding k_def using f by linarith
    show "real k = of_int \<lfloor>e\<rfloor>" unfolding k_def using f(1) by (simp only: of_nat_nat)
  qed
  have k': "Suc k mod 6 < 6" by simp
  have a: "posA e = real k" using posA_floor[OF e] k by simp
  have b: "posB (real k) = real (Suc k mod 6)" using posB_succ[OF k(1)] .
  have sa: "item ringOrder (real k) = Some (ringOrder ! k)" using k(1) by (simp add: item_nat len6)
  have sb: "item ringOrder (real (Suc k mod 6)) = Some (ringOrder ! (Suc k mod 6))"
    using k' by (simp only: item_nat len6)
  have ba: "item bps (real (ringOrder ! k)) = Some (bps ! (ringOrder ! k))"
    using ring_nth_less[OF k(1)] assms(1) by (simp add: item_nat)
  have bb: "item bps (real (ringOrder ! (Suc k mod 6))) = Some (bps ! (ringOrder ! (Suc k mod 6)))"
    using ring_nth_less[OF k'] assms(1) by (simp only: item_nat)
  have own: "item bps (real i) = Some (bps ! i)" using assms(1,2) by (simp add: item_nat)
  have nn: "indexOf ringOrder i \<noteq> - 1" using indexOf_ring(1)[OF assms(2)] by simp
  show ?thesis
    unfolding cardTransform_def Let_def e_def[symmetric] k_def[symmetric]
    by (simp only: nn if_False a b sa sb item_opt_def option.case ba bb own)
qed

lemma applyFrom_all:
  assumes "\<forall>j<length cs. cardTransform bps p (i + j) = Inr (Some (f (i + j)))"
  shows "applyFrom bps p i cs = (map f [i..<i + length cs], None)"
  using assms
proof (induction cs arbitrary: i)
  case Nil
  then show ?case by simp
next
  case (Cons c cs)
  have h: "cardTransform bps p i = Inr (Some (f i))" using Cons.prems by force
  have "\<forall>j<length cs. cardTransform bps p (Suc i + j) = Inr (Some (f (Suc i + j)))"
    using Cons.prems by force
  from Cons.IH[OF this] show ?case using h by (simp add: upt_rec)
qed

subsection \<open>The scenario at progress 2.25\<close>

text \<open>
  C1. With the ring order \<open>[0,1,3,5,4,2]\<close>, six cards, captured base positions
  \<open>b0 .. b5\<close> and \<open>progress = 2.25\<close>: card 0 is at ring position 0, its effective index is
  2.25, the bracketing ring positions are 2 and 3, holding slots 3 and 5, the weight is
  0.25, and the transform written to card 0 by the per-frame update is, in each axis, the
  point a quarter of the way from \<open>base[3]\<close> to \<open>base[5]\<close>, that is
  \<open>base[3] + (base[5] - base[3]) * 0.25\<close>, which is \<open>lerp(base[3], base[5], 0.25)\<close>, minus
  \<open>base[0]\<close>. On the desktop page this is \<open>translate(200px, 125px)\<close>.
\<close>

theorem scenario_progress_2_25:
  "indexOf ringOrder 0 = 0
   \<and> effective (indexOf ringOrder 0) 2.25 = 2.25
   \<and> posA 2.25 = 2 \<and> posB 2 = 3 \<and> weight 2.25 = 0.25
   \<and> item ringOrder 2 = Some 3 \<and> item ringOrder 3 = Some 5
   \<and> cardTransform [b0, b1, b2, b3, b4, b5] 2.25 0 =
       Inr (Some (Translate (pos_x b3 + (pos_x b5 - pos_x b3) * 0.25 - pos_x b0)
                            (pos_y b3 + (pos_y b5 - pos_y b3) * 0.25 - pos_y b0)))
   \<and> cards (fst (applyPositions (s\<lparr>cards := [c0, c1, c2, c3, c4, c5],
         basePositions := [b0, b1, b2, b3, b4, b5], progress := 2.25\<rparr>))) ! 0 =
       Translate (pos_x b3 + (pos_x b5 - pos_x b3) * 0.25 - pos_x b0)
                 (pos_y b3 + (pos_y b5 - pos_y b3) * 0.25 - pos_y b0)
   \<and> lerp (pos_x b3) (pos_x b5) 0.25 = pos_x b3 + (pos_x b5 - pos_x b3) * 0.25
   \<and> lerp (pos_y b3) (pos_y b5) 0.25 = pos_y b3 + (pos_y b5 - pos_y b3) * 0.25
   \<and> cardTransform (measured desktop 6) 2.25 0 = Inr (Some (Translate 200 125))"
proof -
  have i0: "indexOf ringOrder 0 = 0"
    by (simp add: ringOrder_def)
  have e: "effective 0 (9/4) = 9/4"
    by (simp add: effective_def ringOrder_def js_rem_def js_trunc_def)
  have a: "posA (9/4) = 2"
    by (simp add: posA_def ringOrder_def js_rem_def js_trunc_def)
  have b: "posB 2 = 3"
    by (simp add: posB_def ringOrder_def js_rem_def js_trunc_def)
  have t: "weight (9/4) = 1/4"
    by (simp add: weight_def)
  have r: "item ringOrder 2 = Some 3" "item ringOrder 3 = Some 5"
    by (simp_all add: item_def ringOrder_def)
  have i: "item [a0, a1, a2, a3, a4, a5] 3 = Some a3" "item [a0, a1, a2, a3, a4, a5] 5 = Some a5"
     "item [a0, a1, a2, a3, a4, a5] 0 = Some a0" for a0 a1 a2 a3 a4 a5 :: point
    by (simp_all add: item_def)
  have c: "cardTransform [a0, a1, a2, a3, a4, a5] (9/4) 0 =
       Inr (Some (Translate (pos_x a3 + (pos_x a5 - pos_x a3) * (1/4) - pos_x a0)
                            (pos_y a3 + (pos_y a5 - pos_y a3) * (1/4) - pos_y a0)))"
    for a0 a1 a2 a3 a4 a5 :: point
    by (simp add: cardTransform_def Let_def i0 e a b t r i item_opt_def lerp_def)
  have u: "cards (fst (applyPositions (s\<lparr>cards := [c0, c1, c2, c3, c4, c5],
         basePositions := [b0, b1, b2, b3, b4, b5], progress := 9/4\<rparr>))) ! 0 =
       Translate (pos_x b3 + (pos_x b5 - pos_x b3) * (1/4) - pos_x b0)
                 (pos_y b3 + (pos_y b5 - pos_y b3) * (1/4) - pos_y b0)"
    using c[of b0 b1 b2 b3 b4 b5] by (simp add: applyPositions_def split: prod.splits)
  have l: "lerp x y (1/4) = x + (y - x) * (1/4)" for x y
    by (simp add: lerp_def)
  have m: "measured desktop 6 = [\<lparr>pos_x = 0, pos_y = 0\<rparr>, \<lparr>pos_x = 200, pos_y = 0\<rparr>,
     \<lparr>pos_x = 0, pos_y = 100\<rparr>, \<lparr>pos_x = 200, pos_y = 100\<rparr>, \<lparr>pos_x = 0, pos_y = 200\<rparr>,
     \<lparr>pos_x = 200, pos_y = 200\<rparr>]"
    by (simp add: measured_def desktop_def upt_rec)
  have d: "cardTransform (measured desktop 6) (9/4) 0 = Inr (Some (Translate 200 125))"
    unfolding m c by simp
  show ?thesis
    using i0 e a b t r c[of b0 b1 b2 b3 b4 b5] u l d by simp
qed

subsection \<open>Weight and bracketing positions\<close>

text \<open>
  C3. For every card of the six and every \<open>progress \<ge> 0\<close>, the weight
  \<open>t = effective - floor(effective)\<close> with \<open>effective = (ringPos + progress) % len\<close> lies in
  \<open>[0, 1)\<close>, \<open>posA\<close> is a position \<open>k\<close> of the ring and \<open>posB\<close> is its cyclic successor
  \<open>(k + 1) mod len\<close>.
\<close>

theorem weight_in_unit_interval_and_adjacent_brackets:
  assumes "0 \<le> p" and "cardIndex < 6"
  shows "0 \<le> weight (effective (indexOf ringOrder cardIndex) p)
       \<and> weight (effective (indexOf ringOrder cardIndex) p) < 1
       \<and> (\<exists>k<length ringOrder.
             posA (effective (indexOf ringOrder cardIndex) p) = real k
           \<and> posB (posA (effective (indexOf ringOrder cardIndex) p)) = real (Suc k mod length ringOrder))"
proof -
  let ?e = "effective (indexOf ringOrder cardIndex) p"
  have e: "0 \<le> ?e" "?e < 6"
    using effective_range[OF assms(1) indexOf_ring(1)[OF assms(2)]] by simp_all
  then have f: "0 \<le> \<lfloor>?e\<rfloor>" "\<lfloor>?e\<rfloor> < 6" by (simp_all add: floor_less_iff)
  define k where "k = nat \<lfloor>?e\<rfloor>"
  have k: "k < 6" "real k = of_int \<lfloor>?e\<rfloor>"
  proof -
    show "k < 6" unfolding k_def using f by linarith
    show "real k = of_int \<lfloor>?e\<rfloor>" unfolding k_def using f(1) by (simp only: of_nat_nat)
  qed
  have a: "posA ?e = real k" using posA_floor[OF e] k by simp
  have b: "posB (posA ?e) = real (Suc k mod 6)" using posB_succ[OF k(1)] a by simp
  show ?thesis using weight_range[of ?e] a b k(1) by (auto simp: len6)
qed

theorem weight_in_unit_interval_and_adjacent_brackets_witness:
  "(0::real) \<le> 2.25 \<and> (0::nat) < 6
   \<and> 0 \<le> weight (effective (indexOf ringOrder 0) 2.25)
   \<and> weight (effective (indexOf ringOrder 0) 2.25) < 1
   \<and> (\<exists>k<length ringOrder.
         posA (effective (indexOf ringOrder 0) 2.25) = real k
       \<and> posB (posA (effective (indexOf ringOrder 0) 2.25)) = real (Suc k mod length ringOrder))"
  using weight_in_unit_interval_and_adjacent_brackets [of "2.25" 0] by simp

subsection \<open>Every lookup of the per-frame update is defined\<close>

lemma lookups:
  assumes "length bps = 6" "i < 6" "0 \<le> p"
  defines "e \<equiv> effective (indexOf ringOrder i) p"
  shows "\<exists>k<6. real k + weight e = e
         \<and> posA e = real k \<and> posB (posA e) = real (Suc k mod 6)
         \<and> item ringOrder (posA e) = Some (ringOrder ! k)
         \<and> item ringOrder (posB (posA e)) = Some (ringOrder ! (Suc k mod 6))
         \<and> item_opt bps (item ringOrder (posA e)) = Some (bps ! (ringOrder ! k))
         \<and> item_opt bps (item ringOrder (posB (posA e))) = Some (bps ! (ringOrder ! (Suc k mod 6)))
         \<and> item bps (real i) = Some (bps ! i)
         \<and> cardTransform bps p i = Inr (Some (segment bps i k (weight e)))"
proof -
  have e: "0 \<le> e" "e < 6"
    using effective_range[OF assms(3) indexOf_ring(1)[OF assms(2)]] by (simp_all add: e_def)
  then have f: "0 \<le> \<lfloor>e\<rfloor>" "\<lfloor>e\<rfloor> < 6" by (simp_all add: floor_less_iff)
  define k where "k = nat \<lfloor>e\<rfloor>"
  have k: "k < 6" "real k = of_int \<lfloor>e\<rfloor>"
  proof -
    show "k < 6" unfolding k_def using f by linarith
    show "real k = of_int \<lfloor>e\<rfloor>" unfolding k_def using f(1) by (simp only: of_nat_nat)
  qed
  have k': "Suc k mod 6 < 6" by simp
  have w: "real k + weight e = e" using k(2) by (simp add: weight_def)
  have a: "posA e = real k" using posA_floor[OF e] k by simp
  have b: "posB (posA e) = real (Suc k mod 6)" using posB_succ[OF k(1)] a by simp
  have sa: "item ringOrder (posA e) = Some (ringOrder ! k)" using k(1) a by (simp add: item_nat len6)
  have sb: "item ringOrder (posB (posA e)) = Some (ringOrder ! (Suc k mod 6))"
    unfolding b using k' by (simp only: item_nat len6)
  have ba: "item_opt bps (item ringOrder (posA e)) = Some (bps ! (ringOrder ! k))"
    unfolding sa item_opt_def using ring_nth_less[OF k(1)] assms(1) by (simp add: item_nat)
  have bb: "item_opt bps (item ringOrder (posB (posA e))) = Some (bps ! (ringOrder ! (Suc k mod 6)))"
    unfolding sb item_opt_def using ring_nth_less[OF k'] assms(1) by (simp add: item_nat)
  have own: "item bps (real i) = Some (bps ! i)" using assms(1,2) by (simp add: item_nat)
  have nn: "indexOf ringOrder i \<noteq> - 1" using indexOf_ring(1)[OF assms(2)] by simp
  have c: "cardTransform bps p i = Inr (Some (segment bps i k (weight e)))"
    unfolding cardTransform_def Let_def e_def[symmetric] segment_def len6
    by (simp only: nn if_False ba bb own option.case)
  show ?thesis
    using k(1) w a b sa sb ba bb own c by blast
qed

lemma ring_perm: "distinct ringOrder" "set ringOrder = {0..<6}"
  by (auto simp: ringOrder_def)

lemma applyPositions_ok:
  assumes "length (cards s) = 6" "length (basePositions s) = 6" "0 \<le> progress s"
  shows "applyPositions s =
    (s\<lparr>cards := map (\<lambda>i. segment (basePositions s) i
              (nat \<lfloor>effective (indexOf ringOrder i) (progress s)\<rfloor>)
              (weight (effective (indexOf ringOrder i) (progress s)))) [0..<6]\<rparr>, None)"
proof -
  let ?f = "\<lambda>i. segment (basePositions s) i
              (nat \<lfloor>effective (indexOf ringOrder i) (progress s)\<rfloor>)
              (weight (effective (indexOf ringOrder i) (progress s)))"
  have "cardTransform (basePositions s) (progress s) i = Inr (Some (?f i))" if "i < 6" for i
  proof -
    from lookups[OF assms(2) that assms(3)] obtain k where
      k: "real k + weight (effective (indexOf ringOrder i) (progress s)) = effective (indexOf ringOrder i) (progress s)"
      and c: "cardTransform (basePositions s) (progress s) i =
          Inr (Some (segment (basePositions s) i k (weight (effective (indexOf ringOrder i) (progress s)))))"
      by blast
    from k have "real k = of_int \<lfloor>effective (indexOf ringOrder i) (progress s)\<rfloor>"
      by (simp add: weight_def)
    then have "k = nat \<lfloor>effective (indexOf ringOrder i) (progress s)\<rfloor>"
      by linarith
    with c show ?thesis by simp
  qed
  then have "\<forall>j<length (cards s). cardTransform (basePositions s) (progress s) (0 + j) = Inr (Some (?f (0 + j)))"
    using assms(1) by simp
  from applyFrom_all[OF this] show ?thesis
    by (simp add: applyPositions_def assms(1))
qed

subsection \<open>Facts about capture, and about the page\<close>

lemma measured_length: "length (measured e n) = n"
  by (simp add: measured_def)

lemma capture_ok:
  assumes "grid s"
  shows "captureBasePositions e s =
     (s\<lparr>basePositions := measured e (length (cards s)), positionsCaptured := True\<rparr>, None)"
  using assms by (simp add: captureBasePositions_def Let_def map_nth measured_def)

lemma capture_null:
  assumes "\<not> grid s"
  shows "captureBasePositions e s = (s\<lparr>cards := map (\<lambda>c. NoTransform) (cards s)\<rparr>, Some TypeError)"
  using assms by (simp add: captureBasePositions_def Let_def)

lemma enter_start:
  assumes "\<not> innerWidth e < minWidth" "\<not> reducedMotion e" "grid s"
  shows "handleMouseEnter e s =
    ((if positionsCaptured s then s
      else s\<lparr>basePositions := measured e (length (cards s)), positionsCaptured := True\<rparr>)
       \<lparr>lastTimestamp := None, rafQueue := rafQueue s @ [rafNext s], rafNext := Suc (rafNext s),
         animationId := Some (rafNext s)\<rparr>, None)"
  using assms by (simp add: handleMouseEnter_def prefersReducedMotion_def capture_ok requestAnimationFrame_def)

lemma desktop_wide: "\<not> innerWidth desktop < minWidth" "\<not> reducedMotion desktop"
  by (simp_all add: desktop_def minWidth_def)

lemma phone_narrow: "innerWidth phone < minWidth"
  by (simp add: phone_def desktop_def minWidth_def)

lemma bp6: "measured desktop 6 = [\<lparr>pos_x = 0, pos_y = 0\<rparr>, \<lparr>pos_x = 200, pos_y = 0\<rparr>,
   \<lparr>pos_x = 0, pos_y = 100\<rparr>, \<lparr>pos_x = 200, pos_y = 100\<rparr>, \<lparr>pos_x = 0, pos_y = 200\<rparr>, \<lparr>pos_x = 200, pos_y = 200\<rparr>]"
  by (simp add: measured_def desktop_def upt_rec)

lemma ready_eq: "ready = initial\<lparr>grid := True, cards := replicate 6 NoTransform, listeners := True\<rparr>"
  by (simp add: ready_def init_def page_def desktop_def prefersReducedMotion_def Let_def initial_def)

lemma hovering_eq: "hovering = initial\<lparr>grid := True, cards := replicate 6 NoTransform, listeners := True,
    basePositions := measured desktop 6, positionsCaptured := True, rafQueue := [1], rafNext := 2,
    animationId := Some 1\<rparr>"
  by (simp add: hovering_def ready_eq initial_def enter_start desktop_wide)

lemma twice_eq: "run [MouseEnter desktop, MouseEnter desktop] ready =
   initial\<lparr>grid := True, cards := replicate 6 NoTransform, listeners := True,
    basePositions := measured desktop 6, positionsCaptured := True, rafQueue := [1, 2], rafNext := 3,
    animationId := Some 2\<rparr>"
  by (simp add: ready_eq initial_def enter_start desktop_wide)

lemma frozen_eq: "frozen = initial\<lparr>grid := True, cards := replicate 6 NoTransform, listeners := True,
    basePositions := measured desktop 6, positionsCaptured := True, rafQueue := [1], rafNext := 3\<rparr>"
  by (simp add: frozen_def ready_eq initial_def enter_start desktop_wide handleMouseLeave_def cancelAnimationFrame_def)

lemma animate_ok:
  assumes "length (cards s) = 6" "length (basePositions s) = 6"
    and "0 \<le> progress s + speed * ((t - (case lastTimestamp s of None \<Rightarrow> t | Some l \<Rightarrow> l)) / 1000)"
  shows "animate t s =
    (s\<lparr>lastTimestamp := Some t,
       progress := progress s + speed * ((t - (case lastTimestamp s of None \<Rightarrow> t | Some l \<Rightarrow> l)) / 1000),
       cards := map (\<lambda>i. segment (basePositions s) i
              (nat \<lfloor>effective (indexOf ringOrder i)
                 (progress s + speed * ((t - (case lastTimestamp s of None \<Rightarrow> t | Some l \<Rightarrow> l)) / 1000))\<rfloor>)
              (weight (effective (indexOf ringOrder i)
                 (progress s + speed * ((t - (case lastTimestamp s of None \<Rightarrow> t | Some l \<Rightarrow> l)) / 1000)))))
            [0..<6],
       rafQueue := rafQueue s @ [rafNext s], rafNext := Suc (rafNext s),
       animationId := Some (rafNext s)\<rparr>, None)"
  using assms by (simp add: animate_def Let_def applyPositions_ok requestAnimationFrame_def)

text \<open>
  C10. When the per-frame update runs on six cards with six captured base positions and
  \<open>progress \<ge> 0\<close>: the ring order is a permutation of \<open>0..5\<close>; for each of the six cards
  \<open>indexOf\<close> is not \<open>-1\<close>, \<open>ring[posA]\<close>, \<open>ring[posB]\<close>, \<open>basePositions[slotA]\<close>,
  \<open>basePositions[slotB]\<close> and \<open>basePositions[cardIndex]\<close> are defined, and the card is
  assigned a \<open>translate\<close> transform; the update raises no exception.
\<close>

theorem per_frame_update_in_bounds:
  assumes "length (cards s) = 6" and "length (basePositions s) = 6" and "0 \<le> progress s"
  shows "distinct ringOrder \<and> set ringOrder = {0..<6}
     \<and> snd (applyPositions s) = None
     \<and> length (cards (fst (applyPositions s))) = 6
     \<and> (\<forall>i<6.
           indexOf ringOrder i \<noteq> - 1
         \<and> item ringOrder (posA (effective (indexOf ringOrder i) (progress s))) \<noteq> None
         \<and> item ringOrder (posB (posA (effective (indexOf ringOrder i) (progress s)))) \<noteq> None
         \<and> item_opt (basePositions s)
              (item ringOrder (posA (effective (indexOf ringOrder i) (progress s)))) \<noteq> None
         \<and> item_opt (basePositions s)
              (item ringOrder (posB (posA (effective (indexOf ringOrder i) (progress s))))) \<noteq> None
         \<and> item (basePositions s) (real i) \<noteq> None
         \<and> (\<exists>dx dy. cardTransform (basePositions s) (progress s) i = Inr (Some (Translate dx dy))
                   \<and> cards (fst (applyPositions s)) ! i = Translate dx dy))"
proof -
  note ap = applyPositions_ok[OF assms]
  have each: "indexOf ringOrder i \<noteq> - 1
         \<and> item ringOrder (posA (effective (indexOf ringOrder i) (progress s))) \<noteq> None
         \<and> item ringOrder (posB (posA (effective (indexOf ringOrder i) (progress s)))) \<noteq> None
         \<and> item_opt (basePositions s)
              (item ringOrder (posA (effective (indexOf ringOrder i) (progress s)))) \<noteq> None
         \<and> item_opt (basePositions s)
              (item ringOrder (posB (posA (effective (indexOf ringOrder i) (progress s))))) \<noteq> None
         \<and> item (basePositions s) (real i) \<noteq> None
         \<and> (\<exists>dx dy. cardTransform (basePositions s) (progress s) i = Inr (Some (Translate dx dy))
                   \<and> cards (fst (applyPositions s)) ! i = Translate dx dy)" if i: "i < 6" for i
  proof -
    let ?e = "effective (indexOf ringOrder i) (progress s)"
    from lookups[OF assms(2) i assms(3)] obtain k where
      k: "real k + weight ?e = ?e"
      and l: "item ringOrder (posA ?e) = Some (ringOrder ! k)"
         "item ringOrder (posB (posA ?e)) = Some (ringOrder ! (Suc k mod 6))"
         "item_opt (basePositions s) (item ringOrder (posA ?e)) = Some (basePositions s ! (ringOrder ! k))"
         "item_opt (basePositions s) (item ringOrder (posB (posA ?e))) = Some (basePositions s ! (ringOrder ! (Suc k mod 6)))"
         "item (basePositions s) (real i) = Some (basePositions s ! i)"
      and c: "cardTransform (basePositions s) (progress s) i = Inr (Some (segment (basePositions s) i k (weight ?e)))"
      by blast
    from k have "real k = of_int \<lfloor>?e\<rfloor>" by (simp add: weight_def)
    then have kk: "k = nat \<lfloor>?e\<rfloor>" by linarith
    have n: "cards (fst (applyPositions s)) ! i = segment (basePositions s) i k (weight ?e)"
      using i by (simp add: ap kk)
    have nn: "indexOf ringOrder i \<noteq> - 1" using indexOf_ring(1)[OF i] by simp
    have "\<exists>dx dy. segment (basePositions s) i k (weight ?e) = Translate dx dy"
      by (simp add: segment_def)
    then show ?thesis using l c n nn by auto
  qed
  show ?thesis
    using each by (simp add: ring_perm ap)
qed

theorem per_frame_update_in_bounds_witness:
  "length (cards hovering) = 6 \<and> length (basePositions hovering) = 6 \<and> 0 \<le> progress hovering
   \<and> snd (applyPositions hovering) = None
   \<and> length (cards (fst (applyPositions hovering))) = 6
   \<and> indexOf ringOrder 2 \<noteq> - 1
   \<and> item (basePositions hovering) (real 2) \<noteq> None
   \<and> (\<exists>dx dy. cards (fst (applyPositions hovering)) ! 2 = Translate dx dy)"
proof -
  have h: "length (cards hovering) = 6" "length (basePositions hovering) = 6" "0 \<le> progress hovering"
    by (simp_all add: hovering_eq initial_def measured_length)
  have two: "(2::nat) < 6"
    by simp
  from per_frame_update_in_bounds [OF h] h two show ?thesis
    by blast
qed

subsection \<open>Offsets along the ring\<close>

lemma interpolant_continuous:
  fixes C :: "int \<Rightarrow> real"
  defines "G \<equiv> \<lambda>u::real. C \<lfloor>u\<rfloor> + (C (\<lfloor>u\<rfloor> + 1) - C \<lfloor>u\<rfloor>) * (u - of_int \<lfloor>u\<rfloor>)"
  shows "continuous_on UNIV G"
proof -
  have seg: "continuous_on {of_int n .. of_int n + 1} G" for n :: int
  proof -
    have lin: "continuous_on {of_int n .. of_int n + 1} (\<lambda>u::real. C n + (C (n + 1) - C n) * (u - of_int n))"
      by (intro continuous_intros)
    have eq: "G u = C n + (C (n + 1) - C n) * (u - of_int n)" if "u \<in> {of_int n .. of_int n + 1}" for u :: real
    proof (cases "u = of_int n + 1")
      case True
      then have "\<lfloor>u\<rfloor> = n + 1" by simp
      then show ?thesis using True by (simp add: G_def)
    next
      case False
      then have "of_int n \<le> u" "u < of_int n + 1" using that by auto
      then have "\<lfloor>u\<rfloor> = n" by linarith
      then show ?thesis by (simp add: G_def)
    qed
    have "continuous_on {of_int n .. of_int n + 1} G \<longleftrightarrow>
          continuous_on {of_int n .. of_int n + 1} (\<lambda>u::real. C n + (C (n + 1) - C n) * (u - of_int n))"
      by (rule continuous_on_cong) (simp_all only: eq)
    then show ?thesis using lin by simp
  qed
  have op: "continuous_on {of_int n - 1 <..< of_int n + 1} G" for n :: int
  proof -
    have "continuous_on ({of_int (n - 1) .. of_int (n - 1) + 1} \<union> {of_int n .. of_int n + 1}) G"
      by (intro continuous_on_closed_Un closed_atLeastAtMost seg)
    moreover have "{of_int n - 1 <..< of_int n + 1} \<subseteq>
        ({of_int (n - 1) .. of_int (n - 1) + 1} \<union> {of_int n .. of_int n + 1 :: real})"
      by auto
    ultimately show ?thesis by (rule continuous_on_subset)
  qed
  have cover: "(\<Union>n::int. {of_int n - 1 <..< of_int n + 1}) = (UNIV :: real set)"
  proof -
    have "x \<in> (\<Union>n::int. {of_int n - 1 <..< of_int n + 1})" for x :: real
    proof -
      have "of_int \<lfloor>x\<rfloor> - 1 < x" "x < of_int \<lfloor>x\<rfloor> + 1" by linarith+
      then show ?thesis by auto
    qed
    then show ?thesis by blast
  qed
  have "continuous_on (\<Union>n\<in>(UNIV::int set). {of_int n - 1 <..< of_int n + 1}) G"
    by (intro continuous_on_open_UN open_greaterThanLessThan op)
  then show ?thesis by (simp only: cover)
qed

lemma effective_unwrapped:
  assumes "0 \<le> p" "0 \<le> r" "r < 6"
  defines "u \<equiv> of_int r + p"
  defines "e \<equiv> effective r p"
  shows "nat \<lfloor>e\<rfloor> = nat (\<lfloor>u\<rfloor> mod 6)"
    and "Suc (nat \<lfloor>e\<rfloor>) mod 6 = nat ((\<lfloor>u\<rfloor> + 1) mod 6)"
    and "weight e = u - of_int \<lfloor>u\<rfloor>"
proof -
  define m where "m = \<lfloor>u / 6\<rfloor>"
  have u: "0 \<le> u" using assms(1,2) by (simp add: u_def)
  then have "0 \<le> u / 6" by simp
  then have e_eq: "e = u - of_int (6 * m)"
    by (simp add: e_def effective_def len6 js_rem_def js_trunc_def u_def m_def)
  have fl: "\<lfloor>e\<rfloor> = \<lfloor>u\<rfloor> - 6 * m"
    unfolding e_eq by (rule floor_diff_of_int)
  have er: "0 \<le> e" "e < 6"
    using effective_range[OF assms(1,2)] by (simp_all add: e_def)
  then have fr: "0 \<le> \<lfloor>e\<rfloor>" "\<lfloor>e\<rfloor> < 6" by (simp_all add: floor_less_iff)
  have um: "\<lfloor>u\<rfloor> mod 6 = \<lfloor>e\<rfloor>"
    using fl fr by presburger
  show "nat \<lfloor>e\<rfloor> = nat (\<lfloor>u\<rfloor> mod 6)" by (simp only: um)
  have "(\<lfloor>u\<rfloor> + 1) mod 6 = (\<lfloor>e\<rfloor> + 1) mod 6"
    using fl by presburger
  moreover have "nat ((\<lfloor>e\<rfloor> + 1) mod 6) = Suc (nat \<lfloor>e\<rfloor>) mod 6"
    using fr by (simp add: nat_mod_distrib nat_add_distrib)
  ultimately show "Suc (nat \<lfloor>e\<rfloor>) mod 6 = nat ((\<lfloor>u\<rfloor> + 1) mod 6)" by simp
  show "weight e = u - of_int \<lfloor>u\<rfloor>"
    unfolding weight_def fl by (simp add: e_eq)
qed

lemma rendered_eq:
  assumes "length bps = 6" "i < 6" "0 \<le> p"
  defines "u \<equiv> of_int (indexOf ringOrder i) + p"
  shows "rendered bps p i =
    ((pos_x (bps ! (ringOrder ! nat (\<lfloor>u\<rfloor> mod 6)))
       + (pos_x (bps ! (ringOrder ! nat ((\<lfloor>u\<rfloor> + 1) mod 6))) - pos_x (bps ! (ringOrder ! nat (\<lfloor>u\<rfloor> mod 6))))
         * (u - of_int \<lfloor>u\<rfloor>)) - pos_x (bps ! i),
     (pos_y (bps ! (ringOrder ! nat (\<lfloor>u\<rfloor> mod 6)))
       + (pos_y (bps ! (ringOrder ! nat ((\<lfloor>u\<rfloor> + 1) mod 6))) - pos_y (bps ! (ringOrder ! nat (\<lfloor>u\<rfloor> mod 6))))
         * (u - of_int \<lfloor>u\<rfloor>)) - pos_y (bps ! i))"
proof -
  let ?e = "effective (indexOf ringOrder i) p"
  note r = indexOf_ring(1,2)[OF assms(2)]
  note un = effective_unwrapped[OF assms(3) r, folded u_def]
  have "cardTransform bps p i = Inr (Some (segment bps i (nat \<lfloor>?e\<rfloor>) (weight ?e)))"
    using cardTransform_eq[OF assms(1-3)] by (simp add: segment_def len6)
  then show ?thesis
    by (simp add: rendered_def segment_def len6 lerp_def un(1,3) un(2)[unfolded un(1)])
qed

lemma rendered_continuous:
  assumes "length bps = 6" "i < 6"
  shows "continuous_on {0..} (\<lambda>p. rendered bps p i)"
proof -
  define r where "r = real_of_int (indexOf ringOrder i)"
  define Cx where "Cx = (\<lambda>n::int. pos_x (bps ! (ringOrder ! nat (n mod 6))))"
  define Cy where "Cy = (\<lambda>n::int. pos_y (bps ! (ringOrder ! nat (n mod 6))))"
  define Gx where "Gx = (\<lambda>u::real. Cx \<lfloor>u\<rfloor> + (Cx (\<lfloor>u\<rfloor> + 1) - Cx \<lfloor>u\<rfloor>) * (u - of_int \<lfloor>u\<rfloor>))"
  define Gy where "Gy = (\<lambda>u::real. Cy \<lfloor>u\<rfloor> + (Cy (\<lfloor>u\<rfloor> + 1) - Cy \<lfloor>u\<rfloor>) * (u - of_int \<lfloor>u\<rfloor>))"
  have gx: "continuous_on UNIV Gx" unfolding Gx_def by (rule interpolant_continuous)
  have gy: "continuous_on UNIV Gy" unfolding Gy_def by (rule interpolant_continuous)
  have sh: "continuous_on {0..} (\<lambda>p::real. r + p)" by (intro continuous_intros)
  have cx: "continuous_on {0..} (\<lambda>p. Gx (r + p))"
    using continuous_on_compose2[OF gx sh] by simp
  have cy: "continuous_on {0..} (\<lambda>p. Gy (r + p))"
    using continuous_on_compose2[OF gy sh] by simp
  have c: "continuous_on {0..} (\<lambda>p. (Gx (r + p) - pos_x (bps ! i), Gy (r + p) - pos_y (bps ! i)))"
    by (intro continuous_intros cx cy)
  have eq: "rendered bps p i = (Gx (r + p) - pos_x (bps ! i), Gy (r + p) - pos_y (bps ! i))"
    if "p \<in> {0..}" for p
    using rendered_eq[OF assms, of p] that by (simp add: Gx_def Gy_def Cx_def Cy_def r_def)
  have "continuous_on {0..} (\<lambda>p. rendered bps p i) \<longleftrightarrow>
        continuous_on {0..} (\<lambda>p. (Gx (r + p) - pos_x (bps ! i), Gy (r + p) - pos_y (bps ! i)))"
    by (rule continuous_on_cong) (simp_all only: eq)
  then show ?thesis using c by simp
qed

text \<open>
  C2, as stated, fails: the rendered offset is not the interpolation between the two base
  positions itself. On the desktop page at \<open>progress = 0\<close>, card 1 lies at weight 0 between
  slots 1 and 3, whose interpolation is the base position \<open>(200, 0)\<close> of slot 1 (every point
  between the two slots has \<open>x = 200\<close>), while the transform written is \<open>translate(0px, 0px)\<close>.
\<close>

theorem offset_is_not_the_bare_interpolation:
  "cardTransform (measured desktop 6) 0 1 = Inr (Some (Translate 0 0))
   \<and> item ringOrder (posA (effective (indexOf ringOrder 1) 0)) = Some 1
   \<and> item ringOrder (posB (posA (effective (indexOf ringOrder 1) 0))) = Some 3
   \<and> weight (effective (indexOf ringOrder 1) 0) = 0
   \<and> lerp (pos_x (measured desktop 6 ! 1)) (pos_x (measured desktop 6 ! 3))
        (weight (effective (indexOf ringOrder 1) 0)) = 200
   \<and> lerp (pos_y (measured desktop 6 ! 1)) (pos_y (measured desktop 6 ! 3))
        (weight (effective (indexOf ringOrder 1) 0)) = 0
   \<and> cardTransform (measured desktop 6) 0 1 \<noteq>
       Inr (Some (Translate
         (lerp (pos_x (measured desktop 6 ! 1)) (pos_x (measured desktop 6 ! 3))
            (weight (effective (indexOf ringOrder 1) 0)))
         (lerp (pos_y (measured desktop 6 ! 1)) (pos_y (measured desktop 6 ! 3))
            (weight (effective (indexOf ringOrder 1) 0)))))"
proof -
  have i1: "indexOf ringOrder (Suc 0) = 1"
    by (simp add: ringOrder_def)
  have e: "effective 1 0 = 1"
    by (simp add: effective_def ringOrder_def js_rem_def js_trunc_def)
  have a: "posA 1 = 1"
    by (simp add: posA_def ringOrder_def js_rem_def js_trunc_def)
  have b: "posB 1 = 2"
    by (simp add: posB_def ringOrder_def js_rem_def js_trunc_def)
  have t: "weight 1 = 0"
    by (simp add: weight_def)
  have r: "item ringOrder 1 = Some 1" "item ringOrder 2 = Some 3"
    by (simp_all add: item_def ringOrder_def)
  have i: "item (measured desktop 6) 1 = Some \<lparr>pos_x = 200, pos_y = 0\<rparr>"
    "item (measured desktop 6) 3 = Some \<lparr>pos_x = 200, pos_y = 100\<rparr>"
    by (simp_all add: item_def bp6)
  have c: "cardTransform (measured desktop 6) 0 (Suc 0) = Inr (Some (Translate 0 0))"
    by (simp add: cardTransform_def Let_def i1 e a b t r i item_opt_def lerp_def)
  have lx: "lerp (pos_x (measured desktop 6 ! Suc 0)) (pos_x (measured desktop 6 ! 3)) 0 = 200"
    by (simp add: bp6 lerp_def)
  have ly: "lerp (pos_y (measured desktop 6 ! Suc 0)) (pos_y (measured desktop 6 ! 3)) 0 = 0"
    by (simp add: bp6 lerp_def)
  show ?thesis
    using c lx ly r by (simp add: i1 e a b t)
qed

text \<open>
  C2, amended. For six captured base positions, every card and every \<open>progress \<ge> 0\<close>, the
  transform written by the per-frame update is the interpolation between the base
  positions of two cyclically adjacent ring slots, at the weight and position given by the
  card's fractional ring position, minus the card's own base position. The offset of every
  card is a continuous function of \<open>progress\<close>: each segment at weight 0 equals the previous
  segment at weight 1, and the rendered offset is continuous on \<open>[0, \<infinity>)\<close>.
\<close>

theorem offset_interpolates_and_is_continuous:
  assumes "length bps = 6" and "i < 6" and "0 \<le> p"
  shows "(\<exists>k<length ringOrder. \<exists>t. 0 \<le> t \<and> t < 1
            \<and> real k + t = effective (indexOf ringOrder i) p
            \<and> cardTransform bps p i = Inr (Some (segment bps i k t)))
       \<and> (\<forall>k<length ringOrder. segment bps i (Suc k mod length ringOrder) 0 = segment bps i k 1)
       \<and> continuous_on {0..} (\<lambda>q. rendered bps q i)"
proof -
  from lookups[OF assms] obtain k where k: "k < 6"
     "real k + weight (effective (indexOf ringOrder i) p) = effective (indexOf ringOrder i) p"
     "cardTransform bps p i = Inr (Some (segment bps i k (weight (effective (indexOf ringOrder i) p))))"
    by blast
  have 1: "\<exists>k<length ringOrder. \<exists>t. 0 \<le> t \<and> t < 1
            \<and> real k + t = effective (indexOf ringOrder i) p
            \<and> cardTransform bps p i = Inr (Some (segment bps i k t))"
    using k weight_range[of "effective (indexOf ringOrder i) p"] unfolding len6 by blast
  have 2: "segment bps i (Suc k mod length ringOrder) 0 = segment bps i k 1" for k
    by (simp add: segment_def lerp_def)
  show ?thesis using 1 2 rendered_continuous[OF assms(1,2)] by blast
qed

theorem offset_interpolates_and_is_continuous_witness:
  "length (measured desktop 6) = 6 \<and> (1::nat) < 6 \<and> (0::real) \<le> 2.25
   \<and> (\<exists>k t. k < length ringOrder \<and> 0 \<le> t \<and> t < 1
            \<and> real k + t = effective (indexOf ringOrder 1) 2.25
            \<and> cardTransform (measured desktop 6) 2.25 1 = Inr (Some (segment (measured desktop 6) 1 k t)))
   \<and> segment (measured desktop 6) 1 (Suc 5 mod length ringOrder) 0 = segment (measured desktop 6) 1 5 1
   \<and> continuous_on {0..} (\<lambda>q. rendered (measured desktop 6) q 1)"
proof -
  have h: "length (measured desktop 6) = 6" "(1::nat) < 6" "(0::real) \<le> 2.25"
    by (simp_all add: measured_length)
  have five: "5 < length ringOrder"
    by (simp add: len6)
  from offset_interpolates_and_is_continuous [OF h] h five show ?thesis
    by blast
qed

subsection \<open>Position capture\<close>

text \<open>
  C6. \<open>captureBasePositions\<close> (called with the grid bound, as it is by every handler)
  raises nothing, leaves every card's transform as it was before the call, stores the
  positions measured without transforms, and changes nothing but \<open>basePositions\<close> and
  \<open>positionsCaptured\<close>.
\<close>

theorem capture_restores_transforms:
  assumes "grid s"
  shows "snd (captureBasePositions e s) = None
     \<and> cards (fst (captureBasePositions e s)) = cards s
     \<and> basePositions (fst (captureBasePositions e s)) =
         map (\<lambda>i. \<lparr>pos_x = pos_x (cardRect e i) - pos_x (gridRect e),
                     pos_y = pos_y (cardRect e i) - pos_y (gridRect e)\<rparr>) [0..<length (cards s)]
     \<and> fst (captureBasePositions e s) =
         s\<lparr>basePositions := basePositions (fst (captureBasePositions e s)), positionsCaptured := True\<rparr>"
  using assms by (simp add: captureBasePositions_def Let_def map_nth)

theorem capture_restores_transforms_witness:
  "grid (hovering\<lparr>cards := [Translate 3 4, NoTransform, NoTransform, NoTransform, NoTransform, NoTransform]\<rparr>)
   \<and> cards (fst (captureBasePositions desktop
        (hovering\<lparr>cards := [Translate 3 4, NoTransform, NoTransform, NoTransform, NoTransform, NoTransform]\<rparr>))) =
       [Translate 3 4, NoTransform, NoTransform, NoTransform, NoTransform, NoTransform]
   \<and> snd (captureBasePositions desktop
        (hovering\<lparr>cards := [Translate 3 4, NoTransform, NoTransform, NoTransform, NoTransform, NoTransform]\<rparr>)) = None"
proof -
  let ?s = "hovering\<lparr>cards := [Translate 3 4, NoTransform, NoTransform, NoTransform, NoTransform, NoTransform]\<rparr>"
  have h: "grid ?s"
    by (simp add: hovering_eq initial_def)
  from capture_restores_transforms [OF h, of desktop] h show ?thesis
    by simp
qed

subsection \<open>The debounced resize work\<close>

lemma applyFrom_length: "length (fst (applyFrom bps p i cs)) = length cs"
  by (induction cs arbitrary: i) (simp_all add: case_prod_beta split: sum.splits option.splits)

lemma applyFrom_idem:
  "applyFrom bps p i (fst (applyFrom bps p i cs)) = applyFrom bps p i cs"
  by (induction cs arbitrary: i) (simp_all add: case_prod_beta split: sum.splits option.splits)

lemma leave_fields:
  "cards (handleMouseLeave s) = cards s"
  "progress (handleMouseLeave s) = progress s"
  "basePositions (handleMouseLeave s) = basePositions s"
  "positionsCaptured (handleMouseLeave s) = positionsCaptured s"
  "grid (handleMouseLeave s) = grid s"
  "listeners (handleMouseLeave s) = listeners s"
  "resizeTimer (handleMouseLeave s) = resizeTimer s"
  "lastTimestamp (handleMouseLeave s) = lastTimestamp s"
  "rafNext (handleMouseLeave s) = rafNext s"
  "animationId (handleMouseLeave s) = None"
  by (simp_all add: handleMouseLeave_def cancelAnimationFrame_def split: option.splits)

lemma resizeTimeout_alt:
  "resizeTimeout e s =
     (if \<not> positionsCaptured s then (s, None)
      else if innerWidth e < minWidth
           then ((handleMouseLeave s)\<lparr>cards := map (\<lambda>c. NoTransform) (cards (handleMouseLeave s)),
                    positionsCaptured := False, progress := 0\<rparr>, None)
           else
             case captureBasePositions e (handleMouseLeave s) of
               (s2, Some err) \<Rightarrow> (s2, Some err)
             | (s2, None) \<Rightarrow>
                 (case applyPositions s2 of
                    (s3, Some err) \<Rightarrow> (s3, Some err)
                  | (s3, None) \<Rightarrow>
                      if animationId s \<noteq> None
                      then (let (k, s4) = requestAnimationFrame (s3\<lparr>lastTimestamp := None\<rparr>)
                            in (s4\<lparr>animationId := Some k\<rparr>, None))
                      else (s3, None)))"
  unfolding resizeTimeout_def handleMouseLeave_def Let_def
  by (simp split: prod.splits option.splits)

lemma resizeTimeout_uncaptured:
  "\<not> positionsCaptured s \<Longrightarrow> resizeTimeout e s = (s, None)"
  by (simp add: resizeTimeout_alt)

lemma resizeTimeout_narrow:
  assumes "positionsCaptured s" "innerWidth e < minWidth"
  shows "resizeTimeout e s = ((handleMouseLeave s)\<lparr>cards := map (\<lambda>c. NoTransform) (cards s),
                    positionsCaptured := False, progress := 0\<rparr>, None)"
  using assms by (simp add: resizeTimeout_alt leave_fields)

lemma resizeTimeout_null:
  assumes "positionsCaptured s" "\<not> innerWidth e < minWidth" "\<not> grid s"
  shows "resizeTimeout e s = ((handleMouseLeave s)\<lparr>cards := map (\<lambda>c. NoTransform) (cards s)\<rparr>, Some TypeError)"
  using assms by (simp add: resizeTimeout_alt capture_null leave_fields)

lemma resizeTimeout_wide:
  assumes "positionsCaptured s" "\<not> innerWidth e < minWidth" "grid s"
  defines "bps \<equiv> measured e (length (cards s))"
  defines "r \<equiv> applyFrom bps (progress s) 0 (cards s)"
  shows "cards (fst (resizeTimeout e s)) = fst r"
    and "snd (resizeTimeout e s) = snd r"
    and "progress (fst (resizeTimeout e s)) = progress s"
    and "basePositions (fst (resizeTimeout e s)) = bps"
    and "positionsCaptured (fst (resizeTimeout e s))"
    and "grid (fst (resizeTimeout e s))"
    and "(animationId (fst (resizeTimeout e s)) = None) = (animationId s = None \<or> snd r \<noteq> None)"
proof -
  let ?s2 = "(handleMouseLeave s)\<lparr>basePositions := bps, positionsCaptured := True\<rparr>"
  have cap: "captureBasePositions e (handleMouseLeave s) = (?s2, None)"
    using assms(3) by (simp add: capture_ok leave_fields bps_def)
  have ap: "applyPositions ?s2 = (?s2\<lparr>cards := fst r\<rparr>, snd r)"
    by (simp add: applyPositions_def case_prod_beta leave_fields r_def)
  have res: "resizeTimeout e s =
      (case snd r of
         Some err \<Rightarrow> (?s2\<lparr>cards := fst r\<rparr>, Some err)
       | None \<Rightarrow> if animationId s \<noteq> None
                 then (let (k, s4) = requestAnimationFrame (?s2\<lparr>cards := fst r, lastTimestamp := None\<rparr>)
                       in (s4\<lparr>animationId := Some k\<rparr>, None))
                 else (?s2\<lparr>cards := fst r\<rparr>, None))"
    using assms(1,2) by (auto simp add: resizeTimeout_alt cap ap split: option.splits)
  show "cards (fst (resizeTimeout e s)) = fst r"
    by (simp add: res requestAnimationFrame_def split: option.splits)
  show "snd (resizeTimeout e s) = snd r"
    by (simp add: res requestAnimationFrame_def split: option.splits)
  show "progress (fst (resizeTimeout e s)) = progress s"
    by (simp add: res requestAnimationFrame_def leave_fields split: option.splits)
  show "basePositions (fst (resizeTimeout e s)) = bps"
    by (simp add: res requestAnimationFrame_def split: option.splits)
  show "positionsCaptured (fst (resizeTimeout e s))"
    by (simp add: res requestAnimationFrame_def split: option.splits)
  show "grid (fst (resizeTimeout e s))"
    using assms(3) by (simp add: res requestAnimationFrame_def leave_fields split: option.splits)
  show "(animationId (fst (resizeTimeout e s)) = None) = (animationId s = None \<or> snd r \<noteq> None)"
    by (simp add: res requestAnimationFrame_def leave_fields split: option.splits)
qed

text \<open>
  C7. Running the resize work twice in a row in the same environment (same width, same
  layout) leaves the same transforms, progress, base positions and captured flag as
  running it once, keeps the animation running or stopped as the first run left it, and
  raises what the first run raised. On a narrow viewport the second run does nothing at all.
\<close>

theorem resize_work_idempotent:
  "cards (fst (resizeTimeout e (fst (resizeTimeout e s)))) = cards (fst (resizeTimeout e s))
   \<and> progress (fst (resizeTimeout e (fst (resizeTimeout e s)))) = progress (fst (resizeTimeout e s))
   \<and> basePositions (fst (resizeTimeout e (fst (resizeTimeout e s)))) = basePositions (fst (resizeTimeout e s))
   \<and> positionsCaptured (fst (resizeTimeout e (fst (resizeTimeout e s)))) = positionsCaptured (fst (resizeTimeout e s))
   \<and> (animationId (fst (resizeTimeout e (fst (resizeTimeout e s)))) = None) = (animationId (fst (resizeTimeout e s)) = None)
   \<and> snd (resizeTimeout e (fst (resizeTimeout e s))) = snd (resizeTimeout e s)
   \<and> (innerWidth e < minWidth \<longrightarrow>
        resizeTimeout e (fst (resizeTimeout e s)) = (fst (resizeTimeout e s), None))"
proof (cases "positionsCaptured s")
  case False
  then show ?thesis by (simp add: resizeTimeout_uncaptured)
next
  case captured: True
  show ?thesis
  proof (cases "innerWidth e < minWidth")
    case True
    have 1: "resizeTimeout e s = ((handleMouseLeave s)\<lparr>cards := map (\<lambda>c. NoTransform) (cards s),
                    positionsCaptured := False, progress := 0\<rparr>, None)"
      using resizeTimeout_narrow[OF captured True] .
    show ?thesis by (simp add: 1 resizeTimeout_uncaptured)
  next
    case wide: False
    show ?thesis
    proof (cases "grid s")
      case False
      let ?t = "(handleMouseLeave s)\<lparr>cards := map (\<lambda>c. NoTransform) (cards s)\<rparr>"
      have 1: "resizeTimeout e s = (?t, Some TypeError)"
        using resizeTimeout_null[OF captured wide False] .
      have "positionsCaptured ?t" "\<not> grid ?t" using captured False by (simp_all add: leave_fields)
      from resizeTimeout_null[OF this(1) wide this(2)]
      have 2: "resizeTimeout e ?t = ((handleMouseLeave ?t)\<lparr>cards := map (\<lambda>c. NoTransform) (cards ?t)\<rparr>, Some TypeError)" .
      show ?thesis using wide by (simp add: 1 2 leave_fields)
    next
      case True
      let ?bps = "measured e (length (cards s))"
      let ?r = "applyFrom ?bps (progress s) 0 (cards s)"
      let ?t = "fst (resizeTimeout e s)"
      note first = resizeTimeout_wide[OF captured wide True]
      have len: "length (cards ?t) = length (cards s)"
        by (simp add: first(1) applyFrom_length)
      have again: "applyFrom (measured e (length (cards ?t))) (progress ?t) 0 (cards ?t) = ?r"
        by (simp add: first(1,3) applyFrom_length applyFrom_idem)
      note second = resizeTimeout_wide[OF first(5) wide first(6), unfolded again]
      show ?thesis
        using first(7) wide by (simp add: first(1-5) second(1-5) second(7) applyFrom_length)
    qed
  qed
qed

theorem resize_work_idempotent_witness:
  "innerWidth phone < minWidth
   \<and> resizeTimeout phone (fst (resizeTimeout phone hovering)) = (fst (resizeTimeout phone hovering), None)
   \<and> cards (fst (resizeTimeout desktop (fst (resizeTimeout desktop hovering)))) =
       cards (fst (resizeTimeout desktop hovering))
   \<and> progress (fst (resizeTimeout desktop (fst (resizeTimeout desktop hovering)))) =
       progress (fst (resizeTimeout desktop hovering))"
  using resize_work_idempotent [of phone hovering] resize_work_idempotent [of desktop hovering]
    phone_narrow
  by blast

text \<open>
  With exactly one loop running (the callback \<open>animationId\<close> holds is the only one
  scheduled), the resize work on a viewport below the breakpoint stops it: nothing is
  raised, no frame callback stays scheduled, \<open>animationId\<close> is null, every card's
  transform is the empty string, positions are marked uncaptured and progress is zero; and
  a later \<open>mouseenter\<close> on a viewport still below the breakpoint changes nothing.
\<close>

lemma narrow_resize_resets_single_loop:
  assumes "positionsCaptured s" and "animationId s = Some k" and "rafQueue s = [k]"
    and "innerWidth e < minWidth"
  shows "snd (resizeTimeout e s) = None
     \<and> rafQueue (fst (resizeTimeout e s)) = []
     \<and> animationId (fst (resizeTimeout e s)) = None
     \<and> cards (fst (resizeTimeout e s)) = map (\<lambda>c. NoTransform) (cards s)
     \<and> \<not> positionsCaptured (fst (resizeTimeout e s))
     \<and> progress (fst (resizeTimeout e s)) = 0
     \<and> (\<forall>e'. innerWidth e' < minWidth \<longrightarrow>
            handleMouseEnter e' (fst (resizeTimeout e s)) = (fst (resizeTimeout e s), None)
          \<and> step (MouseEnter e') (fst (resizeTimeout e s)) = fst (resizeTimeout e s))"
proof -
  have q: "rafQueue (handleMouseLeave s) = []"
    using assms(2,3) by (simp add: handleMouseLeave_def cancelAnimationFrame_def)
  show ?thesis
    using assms(1,4) q by (simp add: resizeTimeout_alt leave_fields handleMouseEnter_def)
qed

lemma run_append: "run (xs @ ys) s = run ys (run xs s)"
  by (induction xs arbitrary: s) simp_all

text \<open>
  C5. The claim fails on the code when the loop was started twice. After two
  \<open>mouseenter\<close> in a row and a \<open>resize\<close>, base positions are captured and the animation
  is running (\<open>animationId\<close> is 2, callbacks 1 and 2 are scheduled). The resize work on a
  narrow viewport cancels callback 2 only, clears the transforms and resets the progress,
  but callback 1 stays scheduled: the following frames write transforms again and advance
  the progress on the narrow viewport.
\<close>

theorem narrow_resize_leaves_orphan_loop:
  "positionsCaptured (run [MouseEnter desktop, MouseEnter desktop, Resize] ready)
   \<and> animationId (run [MouseEnter desktop, MouseEnter desktop, Resize] ready) = Some 2
   \<and> rafQueue (run [MouseEnter desktop, MouseEnter desktop, Resize] ready) = [1, 2]
   \<and> rafQueue (run [MouseEnter desktop, MouseEnter desktop, Resize, Timeout phone] ready) = [1]
   \<and> animationId (run [MouseEnter desktop, MouseEnter desktop, Resize, Timeout phone] ready) = None
   \<and> progress (run [MouseEnter desktop, MouseEnter desktop, Resize, Timeout phone] ready) = 0
   \<and> cards (run [MouseEnter desktop, MouseEnter desktop, Resize, Timeout phone] ready)
       = replicate 6 NoTransform
   \<and> rafQueue (run [MouseEnter desktop, MouseEnter desktop, Resize, Timeout phone,
         Frame 0, Frame 1000] ready) = [4]
   \<and> progress (run [MouseEnter desktop, MouseEnter desktop, Resize, Timeout phone,
         Frame 0, Frame 1000] ready) = 0.45
   \<and> cards (run [MouseEnter desktop, MouseEnter desktop, Resize, Timeout phone,
         Frame 0, Frame 1000] ready) ! 0 = Translate 90 0"
proof -
  define w where "w = run [MouseEnter desktop, MouseEnter desktop] ready"
  define n where "n = initial\<lparr>grid := True, cards := replicate 6 NoTransform, listeners := True,
    basePositions := measured desktop 6, rafQueue := [1], rafNext := 3\<rparr>"
  have w: "w = initial\<lparr>grid := True, cards := replicate 6 NoTransform, listeners := True,
    basePositions := measured desktop 6, positionsCaptured := True, rafQueue := [1, 2], rafNext := 3,
    animationId := Some 2\<rparr>"
    unfolding w_def by (rule twice_eq)
  have lw: "listeners w"
    unfolding w by simp
  have r1: "run [MouseEnter desktop, MouseEnter desktop, Resize] ready = w\<lparr>resizeTimer := True\<rparr>"
  proof -
    have "run ([MouseEnter desktop, MouseEnter desktop] @ [Resize]) ready = run [Resize] w"
      unfolding w_def by (rule run_append)
    also have "\<dots> = w\<lparr>resizeTimer := True\<rparr>"
      using lw by (simp add: handleResize_def)
    finally show ?thesis by (simp only: append.simps)
  qed
  have cap: "positionsCaptured (w\<lparr>resizeTimer := False\<rparr>)"
    unfolding w by simp
  have r2: "step (Timeout phone) (w\<lparr>resizeTimer := True\<rparr>) = n"
    unfolding n_def
    by (simp add: resizeTimeout_narrow[OF cap phone_narrow])
       (simp add: w initial_def handleMouseLeave_def cancelAnimationFrame_def)
  have f0: "step (Frame 0) n = n\<lparr>lastTimestamp := Some 0,
       cards := map (\<lambda>i. segment (measured desktop 6) i
              (nat \<lfloor>effective (indexOf ringOrder i) 0\<rfloor>) (weight (effective (indexOf ringOrder i) 0))) [0..<6],
       rafQueue := [3], rafNext := 4, animationId := Some 3\<rparr>"
    unfolding n_def by (simp add: initial_def animate_ok measured_length)
  have f1: "step (Frame 1000) (step (Frame 0) n) = n\<lparr>lastTimestamp := Some 1000, progress := 45 / 100,
       cards := map (\<lambda>i. segment (measured desktop 6) i
              (nat \<lfloor>effective (indexOf ringOrder i) (45 / 100)\<rfloor>)
              (weight (effective (indexOf ringOrder i) (45 / 100)))) [0..<6],
       rafQueue := [4], rafNext := 5, animationId := Some 4\<rparr>"
    unfolding f0 unfolding n_def by (simp add: initial_def animate_ok measured_length speed_def)
  have e: "effective (indexOf ringOrder 0) (9 / 20) = 9 / 20"
    by (simp add: effective_def ringOrder_def js_rem_def js_trunc_def)
  have sg: "segment (measured desktop 6) 0 (nat \<lfloor>effective (indexOf ringOrder 0) (9 / 20)\<rfloor>)
          (weight (effective (indexOf ringOrder 0) (9 / 20))) = Translate 90 0"
    unfolding e by (simp add: segment_def weight_def bp6 ringOrder_def lerp_def)
  have a: "positionsCaptured (w\<lparr>resizeTimer := True\<rparr>)" "animationId (w\<lparr>resizeTimer := True\<rparr>) = Some 2"
     "rafQueue (w\<lparr>resizeTimer := True\<rparr>) = [1, 2]"
    unfolding w by (simp_all add: initial_def)
  have b: "rafQueue n = [1]" "animationId n = None" "progress n = 0" "cards n = replicate 6 NoTransform"
    unfolding n_def by (simp_all add: initial_def)
  have c: "rafQueue (step (Frame 1000) (step (Frame 0) n)) = [4]"
     "progress (step (Frame 1000) (step (Frame 0) n)) = 45 / 100"
     "cards (step (Frame 1000) (step (Frame 0) n)) ! 0 = Translate 90 0"
    unfolding f1 by (simp_all add: sg)
  have r3: "run [MouseEnter desktop, MouseEnter desktop, Resize, Timeout phone] ready = n"
  proof -
    have "run ([MouseEnter desktop, MouseEnter desktop, Resize] @ [Timeout phone]) ready =
        run [Timeout phone] (run [MouseEnter desktop, MouseEnter desktop, Resize] ready)"
      by (rule run_append)
    also have "\<dots> = step (Timeout phone) (w\<lparr>resizeTimer := True\<rparr>)"
      unfolding r1 by (simp only: run.simps)
    also have "\<dots> = n"
      by (rule r2)
    finally show ?thesis by (simp only: append.simps)
  qed
  have r4: "run [MouseEnter desktop, MouseEnter desktop, Resize, Timeout phone, Frame 0, Frame 1000] ready
      = step (Frame 1000) (step (Frame 0) n)"
  proof -
    have "run ([MouseEnter desktop, MouseEnter desktop, Resize, Timeout phone] @ [Frame 0, Frame 1000]) ready =
        run [Frame 0, Frame 1000] (run [MouseEnter desktop, MouseEnter desktop, Resize, Timeout phone] ready)"
      by (rule run_append)
    also have "\<dots> = step (Frame 1000) (step (Frame 0) n)"
      unfolding r3 by (simp only: run.simps)
    finally show ?thesis by (simp only: append.simps)
  qed
  show ?thesis
    unfolding r4 r3 r1 using a b c by simp
qed

subsection \<open>Init on a page the carousel does not apply to\<close>

lemma init_quiet:
  assumes "\<not> gridPresent doc \<or> length (valueCards doc) \<noteq> 6 \<or> reducedMotion e"
  shows "init doc e s = (s\<lparr>grid := gridPresent doc\<rparr>, None)
       \<or> init doc e s = (s\<lparr>grid := gridPresent doc, cards := valueCards doc\<rparr>, None)"
  using assms by (auto simp add: init_def Let_def prefersReducedMotion_def)

lemma step_idle:
  assumes "\<not> listeners s" "\<not> resizeTimer s" "rafQueue s = []"
  shows "step ev s = s"
  using assms by (cases ev) simp_all

lemma run_idle:
  assumes "\<not> listeners s" "\<not> resizeTimer s" "rafQueue s = []"
  shows "run evs s = s"
  using assms by (induction evs) (simp_all add: step_idle)

text \<open>
  C8. When the grid is absent, or the number of cards is not 6, or reduced motion is
  requested, \<open>init\<close> raises nothing, registers no listener and leaves the animation state
  (base positions, progress, running handle, last timestamp, captured flag, scheduled
  callbacks) as it was; run from the initial module state, no later sequence of events
  changes anything: no frame callback is ever scheduled.
\<close>

theorem init_inapplicable_is_inert:
  assumes "\<not> gridPresent doc \<or> length (valueCards doc) \<noteq> 6 \<or> reducedMotion e"
  shows "snd (init doc e s) = None
     \<and> listeners (fst (init doc e s)) = listeners s
     \<and> resizeTimer (fst (init doc e s)) = resizeTimer s
     \<and> basePositions (fst (init doc e s)) = basePositions s
     \<and> progress (fst (init doc e s)) = progress s
     \<and> animationId (fst (init doc e s)) = animationId s
     \<and> lastTimestamp (fst (init doc e s)) = lastTimestamp s
     \<and> positionsCaptured (fst (init doc e s)) = positionsCaptured s
     \<and> rafQueue (fst (init doc e s)) = rafQueue s
     \<and> rafNext (fst (init doc e s)) = rafNext s
     \<and> \<not> listeners (fst (init doc e initial))
     \<and> (\<forall>evs. run evs (fst (init doc e initial)) = fst (init doc e initial))
     \<and> (\<forall>evs. rafQueue (run evs (fst (init doc e initial))) = []
             \<and> animationId (run evs (fst (init doc e initial))) = None)"
proof -
  from init_quiet[OF assms, of s]
  have a: "snd (init doc e s) = None
     \<and> listeners (fst (init doc e s)) = listeners s
     \<and> resizeTimer (fst (init doc e s)) = resizeTimer s
     \<and> basePositions (fst (init doc e s)) = basePositions s
     \<and> progress (fst (init doc e s)) = progress s
     \<and> animationId (fst (init doc e s)) = animationId s
     \<and> lastTimestamp (fst (init doc e s)) = lastTimestamp s
     \<and> positionsCaptured (fst (init doc e s)) = positionsCaptured s
     \<and> rafQueue (fst (init doc e s)) = rafQueue s
     \<and> rafNext (fst (init doc e s)) = rafNext s"
    by auto
  let ?s0 = "fst (init doc e initial)"
  from init_quiet[OF assms, of initial]
  have b: "\<not> listeners ?s0" "\<not> resizeTimer ?s0" "rafQueue ?s0 = []" "animationId ?s0 = None"
    by (auto simp: initial_def)
  have c: "run evs ?s0 = ?s0" for evs
    using run_idle[OF b(1-3)] .
  show ?thesis
    using a b c by simp
qed

theorem init_inapplicable_is_inert_witness:
  "\<not> gridPresent (page\<lparr>gridPresent := False\<rparr>)
   \<and> length (valueCards (page\<lparr>valueCards := replicate 5 NoTransform\<rparr>)) \<noteq> 6
   \<and> reducedMotion (desktop\<lparr>reducedMotion := True\<rparr>)
   \<and> \<not> listeners (fst (init (page\<lparr>gridPresent := False\<rparr>) desktop initial))
   \<and> \<not> listeners (fst (init (page\<lparr>valueCards := replicate 5 NoTransform\<rparr>) desktop initial))
   \<and> \<not> listeners (fst (init page (desktop\<lparr>reducedMotion := True\<rparr>) initial))
   \<and> (\<forall>evs. rafQueue (run evs (fst (init (page\<lparr>gridPresent := False\<rparr>) desktop initial))) = [])
   \<and> (\<forall>evs. rafQueue (run evs (fst (init (page\<lparr>valueCards := replicate 5 NoTransform\<rparr>) desktop initial))) = [])
   \<and> (\<forall>evs. rafQueue (run evs (fst (init page (desktop\<lparr>reducedMotion := True\<rparr>) initial))) = [])"
proof -
  have h1: "\<not> gridPresent (page\<lparr>gridPresent := False\<rparr>)
      \<or> length (valueCards (page\<lparr>gridPresent := False\<rparr>)) \<noteq> 6 \<or> reducedMotion desktop"
    by simp
  have h2: "\<not> gridPresent (page\<lparr>valueCards := replicate 5 NoTransform\<rparr>)
      \<or> length (valueCards (page\<lparr>valueCards := replicate 5 NoTransform\<rparr>)) \<noteq> 6 \<or> reducedMotion desktop"
    by simp
  have h3: "\<not> gridPresent page \<or> length (valueCards page) \<noteq> 6
      \<or> reducedMotion (desktop\<lparr>reducedMotion := True\<rparr>)"
    by simp
  have g: "\<not> gridPresent (page\<lparr>gridPresent := False\<rparr>)"
    "length (valueCards (page\<lparr>valueCards := replicate 5 NoTransform\<rparr>)) \<noteq> 6"
    "reducedMotion (desktop\<lparr>reducedMotion := True\<rparr>)"
    by simp_all
  from init_inapplicable_is_inert [OF h1, of initial] init_inapplicable_is_inert [OF h2, of initial]
    init_inapplicable_is_inert [OF h3, of initial] g
  show ?thesis
    by blast
qed

subsection \<open>Two \<open>mouseenter\<close> in a row\<close>

text \<open>
  C9. The claim fails on the code: \<open>handleMouseEnter\<close> requests a frame without cancelling
  the one \<open>animationId\<close> holds. After \<open>init\<close> on the desktop page, one \<open>mouseenter\<close>
  schedules callback 1; a second one, with no \<open>mouseleave\<close> between, schedules callback 2
  beside it and overwrites \<open>animationId\<close>; the next frame runs both and leaves two
  callbacks scheduled again.
\<close>

theorem second_enter_schedules_duplicate_loop:
  "rafQueue (run [MouseEnter desktop] ready) = [1]
   \<and> rafQueue (run [MouseEnter desktop, MouseEnter desktop] ready) = [1, 2]
   \<and> animationId (run [MouseEnter desktop, MouseEnter desktop] ready) = Some 2
   \<and> rafQueue (run [MouseEnter desktop, MouseEnter desktop, Frame 0] ready) = [3, 4]"
proof -
  have a: "rafQueue (run [MouseEnter desktop] ready) = [1]"
    by (simp add: ready_eq initial_def enter_start desktop_wide)
  let ?s = "run [MouseEnter desktop, MouseEnter desktop] ready"
  have b: "run [MouseEnter desktop, MouseEnter desktop, Frame 0] ready = step (Frame 0) ?s"
    by simp
  have c: "rafQueue (step (Frame 0) ?s) = [3, 4]"
    unfolding twice_eq
    by (simp add: initial_def animate_ok measured_length)
  have c': "rafQueue (run [MouseEnter desktop, MouseEnter desktop, Frame 0] ready) = [3, 4]"
    using c by (simp only: b)
  have d: "rafQueue ?s = [1, 2]" "animationId ?s = Some 2"
    unfolding twice_eq by (simp_all add: initial_def)
  show ?thesis
    using a c' d by blast
qed

text \<open>
  A consequence: after two \<open>mouseenter\<close> in a row, \<open>mouseleave\<close> cancels only the second
  callback. The first one is still scheduled, and the following frames advance \<open>progress\<close>
  and move the cards although the pointer has left.
\<close>

lemma orphan_loop_moves_cards_after_leave:
  "progress (run [MouseEnter desktop, MouseEnter desktop, MouseLeave] ready) = 0
   \<and> cards (run [MouseEnter desktop, MouseEnter desktop, MouseLeave] ready) ! 0 = NoTransform
   \<and> animationId (run [MouseEnter desktop, MouseEnter desktop, MouseLeave] ready) = None
   \<and> rafQueue (run [MouseEnter desktop, MouseEnter desktop, MouseLeave] ready) = [1]
   \<and> progress (run [MouseEnter desktop, MouseEnter desktop, MouseLeave, Frame 0, Frame 1000] ready) = 0.45
   \<and> cards (run [MouseEnter desktop, MouseEnter desktop, MouseLeave, Frame 0, Frame 1000] ready) ! 0 = Translate 90 0"
proof -
  have r: "run [MouseEnter desktop, MouseEnter desktop, MouseLeave, Frame 0, Frame 1000] ready =
      step (Frame 1000) (step (Frame 0) frozen)"
      "run [MouseEnter desktop, MouseEnter desktop, MouseLeave] ready = frozen"
    by (simp_all add: frozen_def)
  have f0: "step (Frame 0) frozen = frozen\<lparr>lastTimestamp := Some 0,
       cards := map (\<lambda>i. segment (measured desktop 6) i
              (nat \<lfloor>effective (indexOf ringOrder i) 0\<rfloor>) (weight (effective (indexOf ringOrder i) 0))) [0..<6],
       rafQueue := [3], rafNext := 4, animationId := Some 3\<rparr>"
    unfolding frozen_eq by (simp add: initial_def animate_ok measured_length)
  have f1: "progress (step (Frame 1000) (step (Frame 0) frozen)) = 45 / 100"
    unfolding f0 unfolding frozen_eq by (simp add: initial_def animate_ok measured_length speed_def)
  have f2: "cards (step (Frame 1000) (step (Frame 0) frozen)) ! 0 =
      segment (measured desktop 6) 0 (nat \<lfloor>effective (indexOf ringOrder 0) (45 / 100)\<rfloor>)
          (weight (effective (indexOf ringOrder 0) (45 / 100)))"
    unfolding f0 unfolding frozen_eq by (simp add: initial_def animate_ok measured_length speed_def)
  have e: "effective (indexOf ringOrder 0) (45 / 100) = 45 / 100"
    by (simp add: effective_def ringOrder_def js_rem_def js_trunc_def)
  have f3: "segment (measured desktop 6) 0 (nat \<lfloor>effective (indexOf ringOrder 0) (45 / 100)\<rfloor>)
          (weight (effective (indexOf ringOrder 0) (45 / 100))) = Translate 90 0"
    unfolding e by (simp add: segment_def weight_def bp6 ringOrder_def lerp_def)
  show ?thesis
    unfolding r f1 f2 f3 by (simp add: frozen_eq initial_def)
qed

subsection \<open>The freeze after \<open>mouseleave\<close>\<close>

lemma single_leave: "single s \<Longrightarrow> rafQueue (handleMouseLeave s) = []"
  by (auto simp: single_def handleMouseLeave_def cancelAnimationFrame_def split: list.splits option.splits)

lemma quiet_step:
  assumes "rafQueue s = []" "quiet ev"
  shows "rafQueue (step ev s) = [] \<and> cards (step ev s) = cards s
       \<and> progress (step ev s) = progress s \<and> basePositions (step ev s) = basePositions s"
proof (cases ev)
  case (MouseEnter e)
  then show ?thesis using assms by (auto simp: handleMouseEnter_def prefersReducedMotion_def)
next
  case MouseLeave
  then show ?thesis using assms
    by (simp add: leave_fields) (simp add: handleMouseLeave_def cancelAnimationFrame_def split: option.splits)
next
  case Resize
  then show ?thesis using assms by (simp add: handleResize_def)
next
  case (Timeout e)
  then show ?thesis using assms by simp
next
  case (Frame t)
  then show ?thesis using assms by simp
qed

lemma quiet_run:
  assumes "rafQueue s = []" "list_all quiet evs"
  shows "cards (run evs s) = cards s \<and> progress (run evs s) = progress s
       \<and> basePositions (run evs s) = basePositions s"
  using assms
proof (induction evs arbitrary: s)
  case Nil
  then show ?case by simp
next
  case (Cons ev evs)
  from quiet_step[of s ev] Cons.prems have st: "rafQueue (step ev s) = []" "cards (step ev s) = cards s"
       "progress (step ev s) = progress s" "basePositions (step ev s) = basePositions s"
    by simp_all
  from Cons.IH[OF st(1)] Cons.prems(2) show ?case by (simp add: st)
qed

lemma moving_eq:
  "run [MouseEnter desktop, Frame 0, Frame 1000, Resize, MouseLeave] ready =
     hovering\<lparr>lastTimestamp := Some 1000, progress := 45 / 100,
       cards := map (\<lambda>i. segment (measured desktop 6) i
              (nat \<lfloor>effective (indexOf ringOrder i) (45 / 100)\<rfloor>)
              (weight (effective (indexOf ringOrder i) (45 / 100)))) [0..<6],
       rafQueue := [], rafNext := 4, animationId := None, resizeTimer := True\<rparr>"
proof -
  have 1: "run [MouseEnter desktop] ready = hovering"
    by (simp add: hovering_def ready_eq initial_def)
  have 2: "step (Frame 0) hovering = hovering\<lparr>lastTimestamp := Some 0,
       cards := map (\<lambda>i. segment (measured desktop 6) i
              (nat \<lfloor>effective (indexOf ringOrder i) 0\<rfloor>) (weight (effective (indexOf ringOrder i) 0))) [0..<6],
       rafQueue := [2], rafNext := 3, animationId := Some 2\<rparr>"
    unfolding hovering_eq by (simp add: initial_def animate_ok measured_length)
  have 3: "step (Frame 1000) (step (Frame 0) hovering) = hovering\<lparr>lastTimestamp := Some 1000,
       progress := 45 / 100,
       cards := map (\<lambda>i. segment (measured desktop 6) i
              (nat \<lfloor>effective (indexOf ringOrder i) (45 / 100)\<rfloor>)
              (weight (effective (indexOf ringOrder i) (45 / 100)))) [0..<6],
       rafQueue := [3], rafNext := 4, animationId := Some 3\<rparr>"
    unfolding 2 unfolding hovering_eq by (simp add: initial_def animate_ok measured_length speed_def)
  have 4: "run [MouseEnter desktop, Frame 0, Frame 1000, Resize, MouseLeave] ready =
      step MouseLeave (step Resize (step (Frame 1000) (step (Frame 0) (run [MouseEnter desktop] ready))))"
    by simp
  show ?thesis
    unfolding 4 1 3 unfolding hovering_eq
    by (simp add: initial_def handleResize_def handleMouseLeave_def cancelAnimationFrame_def)
qed

lemma seg0: "segment (measured desktop 6) 0 (nat \<lfloor>effective (indexOf ringOrder 0) (9 / 20)\<rfloor>)
          (weight (effective (indexOf ringOrder 0) (9 / 20))) = Translate 90 0"
proof -
  have e: "effective (indexOf ringOrder 0) (9 / 20) = 9 / 20"
    by (simp add: effective_def ringOrder_def js_rem_def js_trunc_def)
  show ?thesis
    unfolding e by (simp add: segment_def weight_def bp6 ringOrder_def lerp_def)
qed

text \<open>
  C4, as stated, fails: a hover-enter is not the only thing that ends the freeze. With the
  resize timeout armed before the pointer leaves, nothing but time has to pass after
  \<open>mouseleave\<close>: the timeout expires on a viewport that is now narrow and resets the
  transforms and the progress.
\<close>

theorem resize_timeout_ends_freeze:
  "progress (run [MouseEnter desktop, Frame 0, Frame 1000, Resize, MouseLeave] ready) = 0.45
   \<and> cards (run [MouseEnter desktop, Frame 0, Frame 1000, Resize, MouseLeave] ready) ! 0 = Translate 90 0
   \<and> rafQueue (run [MouseEnter desktop, Frame 0, Frame 1000, Resize, MouseLeave] ready) = []
   \<and> progress (run [MouseEnter desktop, Frame 0, Frame 1000, Resize, MouseLeave, Timeout phone] ready) = 0
   \<and> cards (run [MouseEnter desktop, Frame 0, Frame 1000, Resize, MouseLeave, Timeout phone] ready) ! 0
       = NoTransform"
proof -
  define m where "m = run [MouseEnter desktop, Frame 0, Frame 1000, Resize, MouseLeave] ready"
  have m: "progress m = 45 / 100" "cards m ! 0 = Translate 90 0" "rafQueue m = []"
     "resizeTimer m" "positionsCaptured m" "length (cards m) = 6"
    unfolding m_def moving_eq by (simp_all add: seg0 hovering_eq initial_def)
  have r: "run [MouseEnter desktop, Frame 0, Frame 1000, Resize, MouseLeave, Timeout phone] ready =
     step (Timeout phone) m"
    unfolding m_def by simp
  have c: "positionsCaptured (m\<lparr>resizeTimer := False\<rparr>)"
    using m(5) by simp
  have b: "progress (step (Timeout phone) m) = 0" "cards (step (Timeout phone) m) ! 0 = NoTransform"
    using m(4,6) by (simp_all add: resizeTimeout_narrow[OF c phone_narrow] leave_fields)
  from m(1-3) b show ?thesis
    unfolding r m_def[symmetric] by simp
qed

text \<open>
  C4, amended. From a state with the listeners registered and at most one frame callback
  scheduled, the one \<open>animationId\<close> holds, \<open>mouseleave\<close> leaves no callback scheduled and
  the transforms as they were; after it no frame at any timestamp, no \<open>mouseleave\<close>, no
  \<open>resize\<close> and no \<open>mouseenter\<close> on a narrow viewport or with reduced motion changes the
  transforms, the progress or the base positions. Only a \<open>mouseenter\<close> on a wide viewport
  without reduced motion, or the expiry of the resize timeout, ends the freeze.
\<close>

theorem freeze_after_leave:
  assumes "single s" and "listeners s" and "list_all quiet evs"
  shows "rafQueue (step MouseLeave s) = []
     \<and> cards (step MouseLeave s) = cards s
     \<and> cards (run evs (step MouseLeave s)) = cards (step MouseLeave s)
     \<and> progress (run evs (step MouseLeave s)) = progress (step MouseLeave s)
     \<and> basePositions (run evs (step MouseLeave s)) = basePositions (step MouseLeave s)"
  using quiet_run[OF single_leave[OF assms(1)] assms(3)] single_leave[OF assms(1)] assms(2)
  by (simp add: leave_fields)

theorem freeze_after_leave_witness:
  "single hovering \<and> listeners hovering
   \<and> list_all quiet [Frame 0, Frame 1000, MouseEnter phone, Resize, MouseLeave, Frame 2000]
   \<and> rafQueue (step MouseLeave hovering) = []
   \<and> cards (run [Frame 0, Frame 1000, MouseEnter phone, Resize, MouseLeave, Frame 2000]
        (step MouseLeave hovering)) = cards (step MouseLeave hovering)
   \<and> progress (run [Frame 0, Frame 1000, MouseEnter phone, Resize, MouseLeave, Frame 2000]
        (step MouseLeave hovering)) = progress (step MouseLeave hovering)"
proof -
  have h: "single hovering" "listeners hovering"
     "list_all quiet [Frame 0, Frame 1000, MouseEnter phone, Resize, MouseLeave, Frame 2000]"
    by (simp_all add: hovering_eq initial_def single_def phone_narrow)
  from freeze_after_leave [OF h] h show ?thesis
    by blast
qed

subsection \<open>One loop at a time when no second \<open>mouseenter\<close> intervenes\<close>

text \<open>
  As long as an animation is only started while no callback is scheduled, at most one
  callback is scheduled at any time.
\<close>

lemma animate_queue:
  "rafQueue s = [] \<Longrightarrow> single (fst (animate t s))"
  by (simp add: animate_def Let_def case_prod_beta applyPositions_def requestAnimationFrame_def single_def
      split: option.splits)

lemma enter_single:
  assumes "rafQueue s = [] \<or> quiet (MouseEnter e)" "single s"
  shows "single (fst (handleMouseEnter e s))"
proof (cases "quiet (MouseEnter e)")
  case True
  then show ?thesis using assms(2) by (auto simp: handleMouseEnter_def prefersReducedMotion_def)
next
  case False
  then have q: "rafQueue s = []" using assms(1) by simp
  show ?thesis
  proof (cases "grid s \<or> positionsCaptured s")
    case True
    then show ?thesis using q
      by (auto simp: handleMouseEnter_def capture_ok requestAnimationFrame_def single_def)
  next
    case False
    then show ?thesis using q
      by (auto simp: handleMouseEnter_def capture_null single_def)
  qed
qed

lemma timeout_single:
  assumes "single s"
  shows "single (fst (resizeTimeout e s))"
proof -
  have q: "rafQueue (handleMouseLeave s) = []" using single_leave[OF assms] .
  have a: "single (handleMouseLeave s)" using q by (simp add: single_def)
  show ?thesis
  proof (cases "positionsCaptured s \<and> \<not> innerWidth e < minWidth")
    case False
    then show ?thesis using assms q by (auto simp: resizeTimeout_alt single_def split: list.splits)
  next
    case True
    show ?thesis
    proof (cases "grid s")
      case False
      then show ?thesis using True q by (simp add: resizeTimeout_null single_def)
    next
      case True
      then have cap: "captureBasePositions e (handleMouseLeave s) =
          ((handleMouseLeave s)\<lparr>basePositions := measured e (length (cards s)), positionsCaptured := True\<rparr>, None)"
        by (simp add: capture_ok leave_fields)
      show ?thesis using \<open>positionsCaptured s \<and> \<not> innerWidth e < minWidth\<close> q
        by (simp add: resizeTimeout_alt cap applyPositions_def case_prod_beta requestAnimationFrame_def
            single_def split: option.splits)
    qed
  qed
qed

lemma single_step:
  assumes "single s" and "\<And>e. ev = MouseEnter e \<Longrightarrow> rafQueue s = [] \<or> quiet ev"
  shows "single (step ev s)"
proof (cases ev)
  case (MouseEnter e)
  then show ?thesis using assms enter_single[of s e] by auto
next
  case MouseLeave
  then show ?thesis using assms(1) single_leave[OF assms(1)] by (auto simp: single_def)
next
  case Resize
  then show ?thesis using assms(1) by (simp add: handleResize_def single_def split: list.splits)
next
  case (Timeout e)
  have "single (s\<lparr>resizeTimer := False\<rparr>)" using assms(1) by (simp add: single_def split: list.splits)
  from timeout_single[OF this] show ?thesis using Timeout assms(1) by simp
next
  case (Frame t)
  show ?thesis
  proof (cases "rafQueue s")
    case Nil
    then show ?thesis using Frame assms(1) by (simp add: single_def)
  next
    case (Cons k ks)
    then have "ks = []" using assms(1) by (simp add: single_def split: list.splits)
    then show ?thesis using Frame Cons animate_queue[of "s\<lparr>rafQueue := []\<rparr>" t] by simp
  qed
qed

subsection \<open>What holds after a successful init\<close>

text \<open>
  On a page with the grid and six cards, whatever events follow \<open>init\<close> with frame
  timestamps that do not run backwards: the grid and six cards stay bound, six base
  positions are there whenever they are marked captured or a callback is scheduled, and
  \<open>progress\<close> never becomes negative; \<open>animate\<close> on six base positions completes without
  an exception.
\<close>

lemma speed_delta_nonneg:
  assumes "case l of None \<Rightarrow> True | Some x \<Rightarrow> x \<le> t"
  shows "0 \<le> speed * ((t - (case l of None \<Rightarrow> t | Some x \<Rightarrow> x)) / 1000)"
  using assms by (cases l) (simp_all add: speed_def)

lemma sound_animate:
  assumes "sound now s" "length (basePositions s) = 6" "now \<le> t"
  shows "sound t (fst (animate t s)) \<and> length (basePositions (fst (animate t s))) = 6
       \<and> snd (animate t s) = None"
proof -
  have l: "case lastTimestamp s of None \<Rightarrow> True | Some x \<Rightarrow> x \<le> t"
    using assms(1,3) by (auto simp: sound_def split: option.splits)
  have p: "0 \<le> progress s + speed * ((t - (case lastTimestamp s of None \<Rightarrow> t | Some l \<Rightarrow> l)) / 1000)"
    using speed_delta_nonneg[OF l] assms(1) by (simp add: sound_def)
  have c: "length (cards s) = 6" using assms(1) by (simp add: sound_def)
  show ?thesis
    unfolding animate_ok[OF c assms(2) p] using assms(1,2) p by (simp add: sound_def)
qed

lemma sound_frames:
  assumes "sound now s" "length (basePositions s) = 6" "now \<le> t"
  shows "sound t (foldl (\<lambda>s' k. fst (animate t s')) s ks)"
  using assms
proof (induction ks arbitrary: s now)
  case Nil
  then show ?case by (auto simp: sound_def split: option.splits)
next
  case (Cons k ks)
  from sound_animate[OF Cons.prems]
  have "sound t (fst (animate t s))" "length (basePositions (fst (animate t s))) = 6" by simp_all
  from Cons.IH[OF this] show ?case by simp
qed

lemma sound_later: "sound now s \<Longrightarrow> now \<le> t \<Longrightarrow> sound t s"
  by (auto simp: sound_def split: option.splits)

lemma sound_enter:
  assumes "sound now s"
  shows "sound now (fst (handleMouseEnter e s))"
proof (cases "innerWidth e < minWidth \<or> reducedMotion e")
  case True
  then show ?thesis using assms by (auto simp: handleMouseEnter_def prefersReducedMotion_def)
next
  case False
  have g: "grid s" using assms by (simp add: sound_def)
  show ?thesis
    using False assms by (simp add: enter_start g) (simp add: sound_def measured_length)
qed

lemma sound_leave: "sound now s \<Longrightarrow> sound now (handleMouseLeave s)"
  by (auto simp: sound_def handleMouseLeave_def cancelAnimationFrame_def split: option.splits)

lemma sound_timeout:
  assumes "sound now s"
  shows "sound now (fst (resizeTimeout e s))"
proof (cases "positionsCaptured s")
  case False
  then show ?thesis using assms by (simp add: resizeTimeout_uncaptured)
next
  case captured: True
  note lv = sound_leave[OF assms]
  show ?thesis
  proof (cases "innerWidth e < minWidth")
    case True
    have "rafQueue (handleMouseLeave s) \<noteq> [] \<longrightarrow> length (basePositions s) = 6"
      using assms captured by (simp add: sound_def)
    then show ?thesis using lv captured
      by (auto simp add: resizeTimeout_narrow[OF captured True] sound_def leave_fields)
  next
    case False
    have g: "grid s" using assms by (simp add: sound_def)
    have c: "length (cards s) = 6" using assms by (simp add: sound_def)
    let ?s2 = "(handleMouseLeave s)\<lparr>basePositions := measured e (length (cards s)), positionsCaptured := True\<rparr>"
    have cap: "captureBasePositions e (handleMouseLeave s) = (?s2, None)"
      using g by (simp add: capture_ok leave_fields)
    have p: "0 \<le> progress ?s2" using assms by (simp add: sound_def leave_fields)
    define cs where "cs = cards (fst (applyPositions ?s2))"
    have ap: "applyPositions ?s2 = (?s2\<lparr>cards := cs\<rparr>, None)" "length cs = 6"
      unfolding cs_def using applyPositions_ok[of ?s2] p c by (simp_all add: leave_fields measured_length)
    have s3: "sound now (?s2\<lparr>cards := cs\<rparr>)"
      using lv c ap(2) by (simp add: sound_def measured_length)
    show ?thesis
      using captured False s3
      by (simp add: resizeTimeout_alt cap ap(1) requestAnimationFrame_def)
         (simp add: sound_def)
  qed
qed

lemma sound_step:
  assumes "sound now s" "ordered now (ev # evs)"
  shows "\<exists>now'. sound now' (step ev s) \<and> ordered now' evs"
proof (cases ev)
  case (MouseEnter e)
  then have "sound now (step ev s)" "ordered now evs"
    using assms sound_enter[OF assms(1), of e] by simp_all
  then show ?thesis by blast
next
  case MouseLeave
  then have "sound now (step ev s)" "ordered now evs"
    using assms sound_leave[OF assms(1)] by simp_all
  then show ?thesis by blast
next
  case Resize
  then have "sound now (step ev s)" "ordered now evs"
    using assms by (simp_all add: handleResize_def sound_def)
  then show ?thesis by blast
next
  case (Timeout e)
  have "sound now (s\<lparr>resizeTimer := False\<rparr>)" using assms(1) by (simp add: sound_def)
  from sound_timeout[OF this, of e] have "sound now (step ev s)" "ordered now evs"
    using Timeout assms by simp_all
  then show ?thesis by blast
next
  case (Frame t)
  then have t: "now \<le> t" "ordered t evs" using assms(2) by simp_all
  show ?thesis
  proof (cases "rafQueue s = []")
    case True
    then have "s\<lparr>rafQueue := []\<rparr> = s" by simp
    then have "step ev s = s" using Frame True by simp
    then show ?thesis using t sound_later[OF assms(1) t(1)] by auto
  next
    case False
    then have b: "length (basePositions s) = 6" using assms(1) by (simp add: sound_def)
    have "sound now (s\<lparr>rafQueue := []\<rparr>)" using assms(1) by (simp add: sound_def)
    from sound_frames[OF this _ t(1), of "rafQueue s"] b
    have "sound t (step ev s)" using Frame by simp
    then show ?thesis using t(2) by blast
  qed
qed

lemma sound_run:
  assumes "sound now s" "ordered now evs"
  shows "\<exists>now'. sound now' (run evs s)"
  using assms
proof (induction evs arbitrary: s now)
  case Nil
  then show ?case by auto
next
  case (Cons ev evs)
  from sound_step[OF Cons.prems] obtain now' where "sound now' (step ev s)" "ordered now' evs" by blast
  from Cons.IH[OF this] show ?case by simp
qed

lemma sound_init:
  assumes "gridPresent doc" "length (valueCards doc) = 6"
  shows "sound now (fst (init doc e initial))"
  using assms by (simp add: init_def Let_def initial_def sound_def)

text \<open>
  So, after a successful \<open>init\<close>, in every state reached by events with frame timestamps
  that do not run backwards, the per-frame update is safe as soon as positions are
  captured or a callback is scheduled: it raises nothing and writes a transform to each of
  the six cards, and \<open>captureBasePositions\<close> finds the grid bound.
\<close>

lemma reachable_update_in_bounds:
  assumes "gridPresent doc" "length (valueCards doc) = 6" "ordered now evs"
    and "positionsCaptured (run evs (fst (init doc e initial)))
         \<or> rafQueue (run evs (fst (init doc e initial))) \<noteq> []"
  shows "grid (run evs (fst (init doc e initial)))
     \<and> 0 \<le> progress (run evs (fst (init doc e initial)))
     \<and> snd (applyPositions (run evs (fst (init doc e initial)))) = None
     \<and> length (cards (fst (applyPositions (run evs (fst (init doc e initial)))))) = 6"
proof -
  let ?s = "run evs (fst (init doc e initial))"
  from sound_run[OF sound_init[OF assms(1,2)] assms(3)] obtain now' where "sound now' ?s"
    by blast
  then have s: "grid ?s" "length (cards ?s) = 6" "length (basePositions ?s) = 6" "0 \<le> progress ?s"
    using assms(4) by (auto simp: sound_def)
  show ?thesis
    unfolding applyPositions_ok[OF s(2-4)] using s(1,4) by simp
qed

end
